theory Spec2Isabelle
  imports Complex_Main
begin


section \<open>The calendar of Go's \<^verbatim>\<open>time\<close> package\<close>

text \<open>
  \<^verbatim>\<open>main.go\<close> works on \<^verbatim>\<open>time.Time\<close> values. The package is the Go standard
  library, so the part of it the program calls is written out here: the proleptic
  Gregorian calendar over day numbers counted from 1970-01-01 (day 0), in the form the
  package's \<^verbatim>\<open>Date\<close>, \<^verbatim>\<open>absDate\<close> and \<^verbatim>\<open>date\<close> long had (later releases
  compute the same calendar by another route). Years, months and days are Go
  \<^verbatim>\<open>int\<close>s; they are \<^typ>\<open>int\<close> here, and the limits of Go's 64-bit second
  counter (years beyond about 292 billion) are outside the model.
\<close>

definition isLeap :: "int \<Rightarrow> bool" where
  "isLeap year \<longleftrightarrow> year mod 4 = 0 \<and> (year mod 100 \<noteq> 0 \<or> year mod 400 = 0)"

text \<open>\<^verbatim>\<open>daysBefore[m]\<close>: the days of a non-leap year before month \<open>m + 1\<close>.\<close>

definition daysBefore :: "int \<Rightarrow> int" where
  "daysBefore m =
     (if m \<le> 0 then 0 else if m = 1 then 31 else if m = 2 then 59 else if m = 3 then 90
      else if m = 4 then 120 else if m = 5 then 151 else if m = 6 then 181
      else if m = 7 then 212 else if m = 8 then 243 else if m = 9 then 273
      else if m = 10 then 304 else if m = 11 then 334 else 365)"

text \<open>\<^verbatim>\<open>daysIn(m, year)\<close>: the length of month \<open>m\<close> (1 to 12) of \<open>year\<close>.\<close>

definition daysIn :: "int \<Rightarrow> int \<Rightarrow> int" where
  "daysIn m year =
     (if m = 2 \<and> isLeap year then 29 else daysBefore m - daysBefore (m - 1))"

text \<open>
  \<^verbatim>\<open>daysSinceEpoch(year)\<close>: the days from 1970-01-01 to January 1 of \<open>year\<close>
  (negative before 1970). 477 leap days lie between year 1 and 1970.
\<close>

definition daysSinceEpoch :: "int \<Rightarrow> int" where
  "daysSinceEpoch year =
     365 * (year - 1970) + ((year - 1) div 4 - (year - 1) div 100 + (year - 1) div 400) - 477"

text \<open>
  The day number of a civil date, as \<^verbatim>\<open>time.Date\<close> computes it: the month is
  normalised into 1 to 12 by carrying into the year (\<^verbatim>\<open>norm(year, m, 12)\<close>), the day
  is added linearly, so day 0 of a month is the last day of the month before, and
  day 32 overflows into the next.
\<close>

definition dateToDays :: "int \<Rightarrow> int \<Rightarrow> int \<Rightarrow> int" where
  "dateToDays year month day =
     (let m = month - 1;
          y = year + m div 12;
          mo = m mod 12 + 1
      in daysSinceEpoch y + daysBefore (mo - 1)
           + (if isLeap y \<and> 3 \<le> mo then 1 else 0) + (day - 1))"

text \<open>
  \<^verbatim>\<open>absDate\<close>: the year and the day within the year (from 0) of a day number, by
  cutting off 400-, 100-, 4- and 1-year cycles counted from 0001-01-01, which is
  719162 days before 1970-01-01. Go's \<^verbatim>\<open>n -= n >> 2\<close> is \<open>n - n div 4\<close>.
\<close>

definition absDate :: "int \<Rightarrow> int \<times> int" where
  "absDate days =
     (let d = days + 719162;
          n400 = d div 146097;
          d1 = d - 146097 * n400;
          n100 = d1 div 36524;
          c100 = n100 - n100 div 4;
          d2 = d1 - 36524 * c100;
          n4 = d2 div 1461;
          d3 = d2 - 1461 * n4;
          n1 = d3 div 365;
          c1 = n1 - n1 div 4;
          yday = d3 - 365 * c1
      in (400 * n400 + 100 * c100 + 4 * n4 + c1 + 1, yday))"

text \<open>
  The month and day of a day within a year, as \<^verbatim>\<open>Time.date\<close> finds them: February
  29 is taken out first; then, on the day counted as in a non-leap year, the month
  is estimated as \<open>day div 31\<close> and moved one up when the day lies past its end.
\<close>

definition monthSearch :: "int \<Rightarrow> int \<times> int" where
  "monthSearch day =
     (let month = day div 31;
          endm = daysBefore (month + 1)
      in if day \<ge> endm then (month + 2, day - endm + 1)
         else (month + 1, day - daysBefore month + 1))"

definition monthDay :: "int \<Rightarrow> int \<Rightarrow> int \<times> int" where
  "monthDay year yday =
     (if isLeap year \<and> yday = 31 + 29 - 1 then (2, 29)
      else monthSearch (if isLeap year \<and> yday > 31 + 29 - 1 then yday - 1 else yday))"

definition daysToDate :: "int \<Rightarrow> int \<times> int \<times> int" where
  "daysToDate days =
     (let (year, yday) = absDate days;
          (month, day) = monthDay year yday
      in (year, month, day))"

datatype Weekday = Sunday | Monday | Tuesday | Wednesday | Thursday | Friday | Saturday

text \<open>1970-01-01 was a Thursday.\<close>

definition weekdayOf :: "int \<Rightarrow> Weekday" where
  "weekdayOf days =
     (let w = (days + 4) mod 7
      in if w = 0 then Sunday else if w = 1 then Monday else if w = 2 then Tuesday
         else if w = 3 then Wednesday else if w = 4 then Thursday
         else if w = 5 then Friday else Saturday)"


section \<open>Locations and \<^verbatim>\<open>time.Time\<close>\<close>

text \<open>
  A \<^verbatim>\<open>*time.Location\<close> gives, for every instant, the offset of local time from UTC
  in seconds east. It is the offset in effect before the first change
  (\<open>firstOffset\<close>) and the list of changes, each an instant in seconds since
  1970-01-01T00:00:00Z and the offset in effect from then on, in the order of time, as
  the package keeps them (\<^verbatim>\<open>l.tx\<close>); a location of the time-zone database is such
  a list over any span of years. \<^verbatim>\<open>time.UTC\<close> and the zones of
  \<^verbatim>\<open>time.FixedZone\<close> have no change.
\<close>

record Location =
  firstOffset :: int
  transitions :: "(int \<times> int) list"

definition UTC :: Location where
  "UTC = \<lparr>firstOffset = 0, transitions = []\<rparr>"

definition FixedZone :: "int \<Rightarrow> Location" where
  "FixedZone offset = \<lparr>firstOffset = offset, transitions = []\<rparr>"

text \<open>
  \<^verbatim>\<open>l.lookup(sec)\<close>: the offset in effect at the instant \<open>sec\<close>, and the instants
  at which that offset began and ends; \<open>None\<close> stands for no bound (the package's
  \<^verbatim>\<open>alpha\<close> and \<^verbatim>\<open>omega\<close>).
\<close>

fun lookupFrom ::
  "int \<Rightarrow> int option \<Rightarrow> (int \<times> int) list \<Rightarrow> int \<Rightarrow> int \<times> int option \<times> int option" where
  "lookupFrom offset start [] sec = (offset, start, None)"
| "lookupFrom offset start ((w, next) # rest) sec =
     (if sec < w then (offset, start, Some w) else lookupFrom next (Some w) rest sec)"

definition lookup :: "Location \<Rightarrow> int \<Rightarrow> int \<times> int option \<times> int option" where
  "lookup l sec = lookupFrom (firstOffset l) None (transitions l) sec"

text \<open>
  A \<^verbatim>\<open>time.Time\<close> is an instant, kept in nanoseconds since 1970-01-01T00:00:00Z,
  together with a location. \<^verbatim>\<open>t.Zone()\<close> gives the offset in effect at the instant;
  the calendar date, the clock and the weekday of a value are read at that offset.
\<close>

record Time =
  unixNano :: int
  location :: Location

definition Location :: "Time \<Rightarrow> Location" where
  "Location t = location t"

definition unixSec :: "Time \<Rightarrow> int" where
  "unixSec t = unixNano t div 1000000000"

definition zone :: "Time \<Rightarrow> int" where
  "zone t = fst (lookup (Location t) (unixSec t))"

definition localNano :: "Time \<Rightarrow> int" where
  "localNano t = unixNano t + zone t * 1000000000"

definition localDay :: "Time \<Rightarrow> int" where
  "localDay t = localNano t div 86400000000000"

definition nanoOfDay :: "Time \<Rightarrow> int" where
  "nanoOfDay t = localNano t mod 86400000000000"

text \<open>\<^verbatim>\<open>t.Date()\<close>, \<^verbatim>\<open>t.Year()\<close>, \<^verbatim>\<open>t.Month()\<close>, \<^verbatim>\<open>t.Day()\<close>.\<close>

definition Date :: "Time \<Rightarrow> int \<times> int \<times> int" where
  "Date t = daysToDate (localDay t)"

definition Year :: "Time \<Rightarrow> int" where
  "Year t = fst (Date t)"

definition Month :: "Time \<Rightarrow> int" where
  "Month t = fst (snd (Date t))"

definition Day :: "Time \<Rightarrow> int" where
  "Day t = snd (snd (Date t))"

text \<open>\<^verbatim>\<open>t.Clock()\<close>: hour, minute and second within the day; \<^verbatim>\<open>t.Nanosecond()\<close>.\<close>

definition Clock :: "Time \<Rightarrow> int \<times> int \<times> int" where
  "Clock t =
     (let sec = nanoOfDay t div 1000000000
      in (sec div 3600, (sec mod 3600) div 60, sec mod 60))"

definition Nanosecond :: "Time \<Rightarrow> int" where
  "Nanosecond t = nanoOfDay t mod 1000000000"

text \<open>\<^verbatim>\<open>t.Weekday()\<close>.\<close>

definition Weekday :: "Time \<Rightarrow> Weekday" where
  "Weekday t = weekdayOf (localDay t)"

text \<open>
  \<^verbatim>\<open>time.Date(year, month, day, hour, min, sec, nsec, loc)\<close>. The fields give a
  wall-clock time; out-of-range fields are carried over (for the month that is
  \<^const>\<open>dateToDays\<close>, for the others the sum below). \<open>unix\<close> is that wall-clock time
  read as if it were UTC. The offset is looked up at \<open>unix\<close>; when it is not zero and
  \<open>unix - offset\<close> lies outside the span in which that offset is in effect, the offset
  is looked up again at \<open>unix - offset\<close>. So a wall-clock time that a change of offset
  skips, or repeats, still gives an instant, and that instant may show another
  wall-clock time.
\<close>

definition timeDate ::
  "int \<Rightarrow> int \<Rightarrow> int \<Rightarrow> int \<Rightarrow> int \<Rightarrow> int \<Rightarrow> int \<Rightarrow> Location \<Rightarrow> Time" where
  "timeDate year month day hour minute sec nsec loc =
     (let unix = dateToDays year month day * 86400 + hour * 3600 + minute * 60 + sec
                   + nsec div 1000000000;
          (offset, start, stop) = lookup loc unix;
          utc = unix - offset;
          offset2 =
            (if offset \<noteq> 0 \<and>
                ((case start of None \<Rightarrow> False | Some w \<Rightarrow> utc < w) \<or>
                 (case stop of None \<Rightarrow> False | Some w \<Rightarrow> w \<le> utc))
             then fst (lookup loc utc) else offset)
      in \<lparr>unixNano = (unix - offset2) * 1000000000 + nsec mod 1000000000,
          location = loc\<rparr>)"

text \<open>
  \<^verbatim>\<open>t.AddDate(years, months, days)\<close>: the date and the clock of \<open>t\<close> are taken
  apart, the amounts added to the fields, and the value is built again by
  \<^verbatim>\<open>time.Date\<close> in the location of \<open>t\<close>.
\<close>

definition AddDate :: "Time \<Rightarrow> int \<Rightarrow> int \<Rightarrow> int \<Rightarrow> Time" where
  "AddDate t years months days =
     (let (year, month, day) = Date t;
          (hour, minute, sec) = Clock t
      in timeDate (year + years) (month + months) (day + days) hour minute sec
           (Nanosecond t) (Location t))"

text \<open>\<^verbatim>\<open>t.Before(u)\<close> and \<^verbatim>\<open>t.After(u)\<close> compare the instants.\<close>

definition Before :: "Time \<Rightarrow> Time \<Rightarrow> bool" where
  "Before t u \<longleftrightarrow> unixNano t < unixNano u"

definition After :: "Time \<Rightarrow> Time \<Rightarrow> bool" where
  "After t u \<longleftrightarrow> unixNano t > unixNano u"

text \<open>
  \<^verbatim>\<open>time.Parse("2006-01-02", value)\<close>, the only layout the program uses: four
  digits of year, a dash, two digits of month (1 to 12), a dash, two digits of day,
  and nothing after them; then the day is checked against the length of the month.
  The result is midnight of that date in UTC. \<open>None\<close> is any parse error.
\<close>

definition isDigit :: "char \<Rightarrow> bool" where
  "isDigit c \<longleftrightarrow> 48 \<le> (of_char c :: nat) \<and> (of_char c :: nat) \<le> 57"

definition digitVal :: "char \<Rightarrow> int" where
  "digitVal c = int (of_char c) - 48"

fun parseYear :: "string \<Rightarrow> (int \<times> string) option" where
  "parseYear (a # b # c # d # rest) =
     (if isDigit a \<and> isDigit b \<and> isDigit c \<and> isDigit d
      then Some (((digitVal a * 10 + digitVal b) * 10 + digitVal c) * 10 + digitVal d, rest)
      else None)"
| "parseYear _ = None"

fun getnum :: "string \<Rightarrow> (int \<times> string) option" where
  "getnum (a # b # rest) =
     (if isDigit a \<and> isDigit b then Some (digitVal a * 10 + digitVal b, rest) else None)"
| "getnum _ = None"

fun skipDash :: "string \<Rightarrow> string option" where
  "skipDash (c # rest) = (if c = CHR ''-'' then Some rest else None)"
| "skipDash [] = None"

definition Parse :: "string \<Rightarrow> Time option" where
  "Parse value =
     (case parseYear value of
        None \<Rightarrow> None
      | Some (year, v1) \<Rightarrow>
         (case skipDash v1 of
            None \<Rightarrow> None
          | Some v2 \<Rightarrow>
             (case getnum v2 of
                None \<Rightarrow> None
              | Some (month, v3) \<Rightarrow>
                 (if month \<le> 0 \<or> 12 < month then None
                  else
                    (case skipDash v3 of
                       None \<Rightarrow> None
                     | Some v4 \<Rightarrow>
                        (case getnum v4 of
                           None \<Rightarrow> None
                         | Some (day, v5) \<Rightarrow>
                            (if v5 \<noteq> [] then None
                             else if day < 1 \<or> day > daysIn month year then None
                             else Some (timeDate year month day 0 0 0 0 UTC))))))))"


section \<open>The program\<close>

text \<open>
  The errors the program makes or passes on: the embedded file is empty
  (\<^verbatim>\<open>loadHolidays\<close>, first \<^verbatim>\<open>return\<close>), \<^verbatim>\<open>yaml.Unmarshal\<close> failed, an entry
  did not parse as a date (the message holds the entry), and end before start
  (\<^verbatim>\<open>calcBusinessDaysInRange\<close>).
\<close>

datatype error = NotEmbedded | YamlError | HolidayParseError string | InvalidRangeError

text \<open>
  \<^verbatim>\<open>loadHolidays\<close>. The embedded file is the byte string \<open>holidaysYAML\<close>.
  \<^verbatim>\<open>yaml.Unmarshal\<close> into \<^verbatim>\<open>HolidayList\<close> belongs to a library outside the
  repository and is the parameter \<open>unmarshal\<close>: it gives the strings under the key
  \<^verbatim>\<open>holidays\<close>, or \<open>None\<close> when it returns an error. \<open>loadLoop\<close> is the
  \<^verbatim>\<open>for\<close> loop over the strings, \<open>holidays\<close> the slice appended to.
\<close>

fun loadLoop :: "string list \<Rightarrow> Time list \<Rightarrow> error + Time list" where
  "loadLoop [] holidays = Inr holidays"
| "loadLoop (holidayStr # rest) holidays =
     (case Parse holidayStr of
        None \<Rightarrow> Inl (HolidayParseError holidayStr)
      | Some t \<Rightarrow> loadLoop rest (holidays @ [t]))"

definition loadHolidays :: "(string \<Rightarrow> string list option) \<Rightarrow> string \<Rightarrow> error + Time list" where
  "loadHolidays unmarshal holidaysYAML =
     (if length holidaysYAML = 0 then Inl NotEmbedded
      else case unmarshal holidaysYAML of
             None \<Rightarrow> Inl YamlError
           | Some strs \<Rightarrow> loadLoop strs [])"

definition isSameDay :: "Time \<Rightarrow> Time \<Rightarrow> bool" where
  "isSameDay day1 day2 =
     (let (y1, m1, d1) = Date day1;
          (y2, m2, d2) = Date day2
      in y1 = y2 \<and> m1 = m2 \<and> d1 = d2)"

text \<open>\<open>holidayLoop\<close> is the loop over \<open>holidays\<close> inside \<^verbatim>\<open>isBusinessDay\<close>.\<close>

fun holidayLoop :: "Time \<Rightarrow> Time list \<Rightarrow> bool" where
  "holidayLoop day [] = True"
| "holidayLoop day (h # rest) = (if isSameDay day h then False else holidayLoop day rest)"

definition isBusinessDay :: "Time \<Rightarrow> Time list \<Rightarrow> bool" where
  "isBusinessDay day holidays =
     (if Weekday day = Saturday \<or> Weekday day = Sunday then False
      else holidayLoop day holidays)"

text \<open>
  \<open>rangeLoop\<close> is the loop of \<^verbatim>\<open>calcBusinessDaysInRange\<close>:
  \<^verbatim>\<open>for d := start; !d.After(end); d = d.AddDate(0, 0, 1)\<close>, with the counter passed
  along. Where an offset change of the location skips a whole calendar day,
  \<^verbatim>\<open>AddDate(0, 0, 1)\<close> can give back the instant it started from and the loop never
  ends, so the loop is a partial function: \<open>None\<close> is a call that does not return.
  The counter is a Go \<^verbatim>\<open>int\<close> of 64 bits; it counts steps of the loop and cannot
  overflow before the instants do, so it is an \<^typ>\<open>int\<close> here.
\<close>

partial_function (option) rangeLoop :: "Time \<Rightarrow> Time \<Rightarrow> Time list \<Rightarrow> int \<Rightarrow> int option" where
  "rangeLoop d endT holidays count =
     (if After d endT then Some count
      else rangeLoop (AddDate d 0 0 1) endT holidays
             (if isBusinessDay d holidays then count + 1 else count))"

declare rangeLoop.simps [code]

definition calcBusinessDaysInRange ::
  "Time \<Rightarrow> Time \<Rightarrow> Time list \<Rightarrow> (error + int) option" where
  "calcBusinessDaysInRange start endT holidays =
     (if Before endT start then Some (Inl InvalidRangeError)
      else map_option Inr (rangeLoop start endT holidays 0))"

definition beginningOfMonth :: "Time \<Rightarrow> Time" where
  "beginningOfMonth t = timeDate (Year t) (Month t) 1 0 0 0 0 (Location t)"

definition endOfMonth :: "Time \<Rightarrow> Time" where
  "endOfMonth t =
     (let firstDayOfMonth = beginningOfMonth t;
          nextMonth = AddDate firstDayOfMonth 0 1 0;
          endOfThisMonth = AddDate nextMonth 0 0 (- 1)
      in timeDate (Year endOfThisMonth) (Month endOfThisMonth) (Day endOfThisMonth)
           23 59 59 0 (Location t))"

subsection \<open>The printed report\<close>

text \<open>
  The percentage is a \<^verbatim>\<open>float64\<close>. Only what the report needs of it is
  modelled: the special values of a division by zero, and finite values as the
  rational they stand for. The rounding of a finite result to the nearest
  \<^verbatim>\<open>float64\<close> is the parameter \<open>rnd\<close>; signed zeros are not told apart (a
  converted \<^verbatim>\<open>int\<close> is never a negative zero) and overflow of a finite product or
  quotient is not represented. The day counts are far below \<open>2^53\<close>, so their
  conversion is exact.
\<close>

datatype float64 = Finite rat | PosInf | NegInf | NaN

definition f64_of_int :: "int \<Rightarrow> float64" where
  "f64_of_int i = Finite (of_int i)"

fun f64_div :: "(rat \<Rightarrow> rat) \<Rightarrow> float64 \<Rightarrow> float64 \<Rightarrow> float64" where
  "f64_div rnd NaN y = NaN"
| "f64_div rnd x NaN = NaN"
| "f64_div rnd (Finite a) (Finite b) =
     (if b = 0 then (if a = 0 then NaN else if 0 < a then PosInf else NegInf)
      else Finite (rnd (a / b)))"
| "f64_div rnd (Finite a) y = Finite 0"
| "f64_div rnd PosInf (Finite b) = (if 0 \<le> b then PosInf else NegInf)"
| "f64_div rnd NegInf (Finite b) = (if 0 \<le> b then NegInf else PosInf)"
| "f64_div rnd x y = NaN"

fun f64_mul :: "(rat \<Rightarrow> rat) \<Rightarrow> float64 \<Rightarrow> float64 \<Rightarrow> float64" where
  "f64_mul rnd NaN y = NaN"
| "f64_mul rnd x NaN = NaN"
| "f64_mul rnd (Finite a) (Finite b) = Finite (rnd (a * b))"
| "f64_mul rnd (Finite a) PosInf = (if a = 0 then NaN else if 0 < a then PosInf else NegInf)"
| "f64_mul rnd (Finite a) NegInf = (if a = 0 then NaN else if 0 < a then NegInf else PosInf)"
| "f64_mul rnd PosInf (Finite b) = (if b = 0 then NaN else if 0 < b then PosInf else NegInf)"
| "f64_mul rnd NegInf (Finite b) = (if b = 0 then NaN else if 0 < b then NegInf else PosInf)"
| "f64_mul rnd PosInf PosInf = PosInf"
| "f64_mul rnd NegInf NegInf = PosInf"
| "f64_mul rnd PosInf NegInf = NegInf"
| "f64_mul rnd NegInf PosInf = NegInf"

text \<open>
  A printed line is the value handed to \<^verbatim>\<open>fmt.Printf\<close> and the verb that formats
  it: \<^verbatim>\<open>%d\<close> for the three integers, \<^verbatim>\<open>%.1f\<close> (one decimal place) for the
  percentage. The fixed text around the verb is not modelled.
\<close>

datatype printed = Printf_d int | Printf_1f float64

text \<open>
  \<open>report\<close> is \<^verbatim>\<open>main\<close> from \<^verbatim>\<open>today := time.Now()\<close> on, with the current time
  as the argument \<open>today\<close>; \<^verbatim>\<open>log.Fatalf\<close> is the result \<open>Inl\<close>, and a range call
  that does not return leaves \<open>None\<close>. \<open>main\<close> loads the holidays first.
\<close>

definition report ::
  "(rat \<Rightarrow> rat) \<Rightarrow> Time \<Rightarrow> Time list \<Rightarrow> (error + printed list) option" where
  "report rnd today holidays =
     (let start = beginningOfMonth today;
          endT = endOfMonth today
      in case calcBusinessDaysInRange start today holidays of
           None \<Rightarrow> None
         | Some (Inl err) \<Rightarrow> Some (Inl err)
         | Some (Inr businessDaysPassed) \<Rightarrow>
            (case calcBusinessDaysInRange start endT holidays of
               None \<Rightarrow> None
             | Some (Inl err) \<Rightarrow> Some (Inl err)
             | Some (Inr businessDaysTotal) \<Rightarrow>
                (let businessDayIndex = businessDaysPassed;
                     businessDaysLeft = businessDaysTotal - businessDaysPassed
                 in Some (Inr [Printf_d businessDayIndex,
                         Printf_d businessDaysLeft,
                         Printf_d (businessDaysLeft * 8),
                         Printf_1f (f64_mul rnd
                           (f64_div rnd (f64_of_int businessDayIndex)
                              (f64_of_int businessDaysTotal))
                           (Finite 100))]))))"

definition main ::
  "(string \<Rightarrow> string list option) \<Rightarrow> string \<Rightarrow> (rat \<Rightarrow> rat) \<Rightarrow> Time \<Rightarrow>
     (error + printed list) option" where
  "main unmarshal holidaysYAML rnd today =
     (case loadHolidays unmarshal holidaysYAML of
        Inl err \<Rightarrow> Some (Inl err)
      | Inr holidays \<Rightarrow> report rnd today holidays)"

subsection \<open>Notions used to state the properties\<close>

text \<open>A civil date that exists: a month from 1 to 12 and a day of that month.\<close>

definition validDate :: "int \<Rightarrow> int \<Rightarrow> int \<Rightarrow> bool" where
  "validDate year month day \<longleftrightarrow>
     1 \<le> month \<and> month \<le> 12 \<and> 1 \<le> day \<and> day \<le> daysIn month year"

text \<open>The day within the year (from 0) of such a date.\<close>

definition yearDay :: "int \<Rightarrow> int \<Rightarrow> int \<Rightarrow> int" where
  "yearDay year month day =
     daysBefore (month - 1) + (if isLeap year \<and> 3 \<le> month then 1 else 0) + (day - 1)"

text \<open>
  A day number that counts as a business day for a holiday list: its weekday is Monday
  to Friday, and its civil date is the date of no holiday.
\<close>

definition businessDate :: "Time list \<Rightarrow> int \<Rightarrow> bool" where
  "businessDate holidays n \<longleftrightarrow>
     weekdayOf n \<in> {Monday, Tuesday, Wednesday, Thursday, Friday} \<and>
     daysToDate n \<notin> Date ` set holidays"

text \<open>
  How often the body of \<^const>\<open>rangeLoop\<close> runs from \<open>d\<close> when every step of the loop
  is one of 24 hours.
\<close>

definition loopSteps :: "Time \<Rightarrow> Time \<Rightarrow> int" where
  "loopSteps d endT =
     (if After d endT then 0 else (unixNano endT - unixNano d) div 86400000000000 + 1)"

text \<open>
  The format \<^verbatim>\<open>YYYY-MM-DD\<close> said directly: exactly ten characters, digits with a dash
  at the fifth and the eighth place; \<open>dateFields\<close> reads the three numbers, and the
  string matches when they are a date that exists.
\<close>

fun dateFields :: "string \<Rightarrow> (int \<times> int \<times> int) option" where
  "dateFields [y1, y2, y3, y4, s1, m1, m2, s2, d1, d2] =
     (if isDigit y1 \<and> isDigit y2 \<and> isDigit y3 \<and> isDigit y4 \<and> s1 = CHR ''-'' \<and>
         isDigit m1 \<and> isDigit m2 \<and> s2 = CHR ''-'' \<and> isDigit d1 \<and> isDigit d2
      then Some (((digitVal y1 * 10 + digitVal y2) * 10 + digitVal y3) * 10 + digitVal y4,
                 digitVal m1 * 10 + digitVal m2,
                 digitVal d1 * 10 + digitVal d2)
      else None)"
| "dateFields s = None"

definition matchesLayout :: "string \<Rightarrow> bool" where
  "matchesLayout s =
     (case dateFields s of
        None \<Rightarrow> False
      | Some (year, month, day) \<Rightarrow> validDate year month day)"

text \<open>
  A holiday file for the example of a month without business days: every Monday to
  Friday of February 2026 (the month starts on a Sunday and has 28 days).
\<close>

definition weekdaysOfFebruary2026 :: "string list" where
  "weekdaysOfFebruary2026 =
     [''2026-02-02'', ''2026-02-03'', ''2026-02-04'', ''2026-02-05'', ''2026-02-06'',
      ''2026-02-09'', ''2026-02-10'', ''2026-02-11'', ''2026-02-12'', ''2026-02-13'',
      ''2026-02-16'', ''2026-02-17'', ''2026-02-18'', ''2026-02-19'', ''2026-02-20'',
      ''2026-02-23'', ''2026-02-24'', ''2026-02-25'', ''2026-02-26'', ''2026-02-27'']"

text \<open>
  The offset of a location is steady from the instant \<open>a\<close> to the instant \<open>b\<close> (in
  seconds): the changes of the location are in the order of time, and the span of
  constant offset that holds \<open>a\<close> began at least as many seconds before \<open>a\<close>, and ends
  more than as many seconds after \<open>b\<close>, as the offset is large. Then each lookup that
  \<^verbatim>\<open>time.Date\<close> makes for a wall-clock time from \<open>a\<close> to \<open>b\<close>, at the
  wall-clock time read as UTC or at the instant itself, falls into that span.
\<close>

definition offsetSteady :: "Location \<Rightarrow> int \<Rightarrow> int \<Rightarrow> bool" where
  "offsetSteady l a b \<longleftrightarrow>
     sorted_wrt (<) (map fst (transitions l)) \<and>
     (case lookup l a of
        (offset, start, stop) \<Rightarrow>
          (case start of None \<Rightarrow> True | Some w \<Rightarrow> w + \<bar>offset\<bar> \<le> a) \<and>
          (case stop of None \<Rightarrow> True | Some w \<Rightarrow> b + \<bar>offset\<bar> < w))"

text \<open>
  The offset is steady over the month of \<open>t\<close>: from midnight of day 1 of that month
  to midnight of day 2 of the next month, both at the offset of \<open>t\<close>.
\<close>

definition steadyMonth :: "Time \<Rightarrow> bool" where
  "steadyMonth t \<longleftrightarrow>
     offsetSteady (Location t)
       (dateToDays (Year t) (Month t) 1 * 86400 - zone t)
       (dateToDays (Year t) (Month t + 1) 1 * 86400 - zone t + 86400)"


definition asuncion :: Location where
  "asuncion = \<lparr>firstOffset = - 14400, transitions = [(970372800, - 10800)]\<rparr>"

definition apia :: Location where
  "apia = \<lparr>firstOffset = - 36000, transitions = [(1325239200, 50400)]\<rparr>"

text \<open>
  A holiday file with every Monday to Friday from 2000-10-02 to 2000-10-27.
\<close>

definition weekdaysOfOctober2000 :: "string list" where
  "weekdaysOfOctober2000 =
     [''2000-10-02'', ''2000-10-03'', ''2000-10-04'', ''2000-10-05'', ''2000-10-06'',
      ''2000-10-09'', ''2000-10-10'', ''2000-10-11'', ''2000-10-12'', ''2000-10-13'',
      ''2000-10-16'', ''2000-10-17'', ''2000-10-18'', ''2000-10-19'', ''2000-10-20'',
      ''2000-10-23'', ''2000-10-24'', ''2000-10-25'', ''2000-10-26'', ''2000-10-27'']"


section \<open>The calendar is consistent\<close>

lemma div_step:
  fixes y k :: int
  assumes "0 < k"
  shows "y div k = (y - 1) div k + (if y mod k = 0 then 1 else 0)"
proof (cases "y mod k = 0")
  case True
  have "y = k * (y div k)" using True by auto
  then have "y - 1 = k * (y div k - 1) + (k - 1)" by (simp add: algebra_simps)
  then have "(y - 1) div k = y div k - 1"
    using assms by (intro int_div_pos_eq[of _ _ _ "k - 1"]) auto
  with True show ?thesis by simp
next
  case False
  have "0 \<le> y mod k" "y mod k < k" using assms by simp_all
  with False have m: "0 \<le> y mod k - 1" "y mod k - 1 < k" by simp_all
  have "y = k * (y div k) + y mod k" by simp
  then have "y - 1 = k * (y div k) + (y mod k - 1)" by simp
  then have "(y - 1) div k = y div k"
    using m by (intro int_div_pos_eq[of _ _ _ "y mod k - 1"]) 
  with False show ?thesis by simp
qed

lemma leap_dvd:
  fixes y :: int
  shows "y mod 400 = 0 \<Longrightarrow> y mod 100 = 0" and "y mod 100 = 0 \<Longrightarrow> y mod 4 = 0"
proof -
  have a: "(100::int) dvd 400" and b: "(4::int) dvd 100" by simp_all
  show "y mod 400 = 0 \<Longrightarrow> y mod 100 = 0"
    using dvd_trans [OF a, of y] by (simp add: mod_eq_0_iff_dvd)
  show "y mod 100 = 0 \<Longrightarrow> y mod 4 = 0"
    using dvd_trans [OF b, of y] by (simp add: mod_eq_0_iff_dvd)
qed

lemma daysSinceEpoch_next:
  "daysSinceEpoch (y + 1) = daysSinceEpoch y + (if isLeap y then 366 else 365)"
proof -
  define b4 :: int where "b4 = (if y mod 4 = 0 then 1 else 0)"
  define b100 :: int where "b100 = (if y mod 100 = 0 then 1 else 0)"
  define b400 :: int where "b400 = (if y mod 400 = 0 then 1 else 0)"
  define a4 where "a4 = (y - 1) div 4"
  define a100 where "a100 = (y - 1) div 100"
  define a400 where "a400 = (y - 1) div 400"
  have e: "y div 4 = a4 + b4" "y div 100 = a100 + b100" "y div 400 = a400 + b400"
    unfolding b4_def b100_def b400_def a4_def a100_def a400_def
    by (rule div_step, simp)+
  have "daysSinceEpoch (y + 1) = 365 * (y + 1 - 1970) + (y div 4 - y div 100 + y div 400) - 477"
    by (simp add: daysSinceEpoch_def)
  also have "\<dots> = 365 * (y - 1970) + (a4 - a100 + a400) - 477 + (365 + b4 - b100 + b400)"
    unfolding e by (simp add: algebra_simps)
  also have "365 * (y - 1970) + (a4 - a100 + a400) - 477 = daysSinceEpoch y"
    by (simp only: daysSinceEpoch_def a4_def a100_def a400_def)
  also have "365 + b4 - b100 + b400 = (if isLeap y then 366 else 365)"
    using leap_dvd [of y] unfolding b4_def b100_def b400_def isLeap_def
    by (cases "y mod 4 = 0"; cases "y mod 100 = 0"; cases "y mod 400 = 0") simp_all
  finally show ?thesis .
qed

lemma daysSinceEpoch_mono: "a \<le> b \<Longrightarrow> daysSinceEpoch a \<le> daysSinceEpoch b"
proof (induction b rule: int_ge_induct)
  case base
  show ?case by simp
next
  case (step i)
  then show ?case using daysSinceEpoch_next [of i] by (simp split: if_splits)
qed

text \<open>One cycle cut: the quotient, capped at 3 the way \<open>n - n div 4\<close> caps it, and the rest.\<close>

lemma cut_cycle:
  fixes a k :: int
  assumes "0 < k" "0 \<le> a" "a \<le> 4 * k"
  defines "n \<equiv> a div k"
  defines "c \<equiv> n - n div 4"
  shows "0 \<le> c" "c \<le> 3" "0 \<le> a - k * c" "a - k * c \<le> k" 
    "a - k * c = k \<Longrightarrow> c = 3 \<and> a = 4 * k"
proof -
  have dm: "a = k * n + a mod k" "0 \<le> a mod k" "a mod k < k"
    using assms(1) by (simp_all add: n_def)
  have "0 \<le> n" using assms(1,2) by (simp add: n_def pos_imp_zdiv_nonneg_iff)
  moreover have "n \<le> 4"
  proof -
    have "a div k \<le> (4 * k) div k" using assms(1,3) by (intro zdiv_mono1) 
    then show ?thesis using assms(1) by (simp add: n_def)
  qed
  ultimately consider "n = 0" | "n = 1" | "n = 2" | "n = 3" | "n = 4" by linarith
  then have "0 \<le> c \<and> c \<le> 3 \<and> 0 \<le> a - k * c \<and> a - k * c \<le> k \<and>
    (a - k * c = k \<longrightarrow> c = 3 \<and> a = 4 * k)"
  proof cases
    case 1 then show ?thesis using dm by (simp add: c_def)
  next
    case 2 then show ?thesis using dm by (simp add: c_def)
  next
    case 3 then show ?thesis using dm by (simp add: c_def)
  next
    case 4 then show ?thesis using dm by (simp add: c_def)
  next
    case 5 then show ?thesis using dm assms(3) by (simp add: c_def)
  qed
  then show "0 \<le> c" "c \<le> 3" "0 \<le> a - k * c" "a - k * c \<le> k" 
    "a - k * c = k \<Longrightarrow> c = 3 \<and> a = 4 * k" by auto
qed

lemma absDate_sound:
  assumes "absDate n = (y, yd)"
  shows "daysSinceEpoch y + yd = n" and "0 \<le> yd" and "yd < (if isLeap y then 366 else 365)"
proof -
  define d where "d = n + 719162"
  define q where "q = d div 146097"
  define d1 where "d1 = d - 146097 * q"
  define n100 where "n100 = d1 div 36524"
  define c100 where "c100 = n100 - n100 div 4"
  define d2 where "d2 = d1 - 36524 * c100"
  define n4 where "n4 = d2 div 1461"
  define d3 where "d3 = d2 - 1461 * n4"
  define n1 where "n1 = d3 div 365"
  define c1 where "c1 = n1 - n1 div 4"
  have "absDate n = (400 * q + 100 * c100 + 4 * n4 + c1 + 1, d3 - 365 * c1)"
    by (simp only: absDate_def Let_def d_def q_def d1_def n100_def c100_def d2_def
        n4_def d3_def n1_def c1_def)
  with assms have y: "y = 400 * q + 100 * c100 + 4 * n4 + c1 + 1" and yd: "yd = d3 - 365 * c1"
    by simp_all
  have "d1 = d mod 146097" by (simp add: d1_def q_def minus_mult_div_eq_mod)
  then have d1: "0 \<le> d1" "d1 \<le> 4 * 36524" by simp_all
  note s1 = cut_cycle [OF _ d1, folded n100_def, folded c100_def, folded d2_def]
  have c100: "0 \<le> c100" "c100 \<le> 3" and d2: "0 \<le> d2" "d2 \<le> 36524"
    and d2': "d2 = 36524 \<Longrightarrow> c100 = 3"
    using s1 by simp_all
  have n4: "0 \<le> n4" "n4 \<le> 24"
  proof -
    show "0 \<le> n4" using d2(1) by (simp add: n4_def pos_imp_zdiv_nonneg_iff)
    have "d2 div 1461 \<le> 36524 div 1461" using d2(2) by (intro zdiv_mono1) simp_all
    then show "n4 \<le> 24" by (simp add: n4_def)
  qed
  have "d3 = d2 mod 1461" by (simp add: d3_def n4_def minus_mult_div_eq_mod)
  then have d3: "0 \<le> d3" "d3 \<le> 4 * 365" by simp_all
  note s2 = cut_cycle [OF _ d3, folded n1_def, folded c1_def, folded yd]
  have c1: "0 \<le> c1" "c1 \<le> 3" and ydb: "0 \<le> yd" "yd \<le> 365"
    and yd': "yd = 365 \<Longrightarrow> c1 = 3 \<and> d3 = 1460"
    using s2 by simp_all
  have q400: "(y - 1) div 400 = q"
    using c100 n4 c1
    by (intro int_div_pos_eq [of _ _ _ "100 * c100 + 4 * n4 + c1"]) (simp_all add: y)
  have q100: "(y - 1) div 100 = 4 * q + c100"
    using n4 c1
    by (intro int_div_pos_eq [of _ _ _ "4 * n4 + c1"]) (simp_all add: y)
  have q4: "(y - 1) div 4 = 100 * q + 25 * c100 + n4"
    using c1
    by (intro int_div_pos_eq [of _ _ _ "c1"]) (simp_all add: y)
  have dsum: "d = 146097 * q + 36524 * c100 + 1461 * n4 + 365 * c1 + yd"
    by (simp add: yd d3_def d2_def d1_def)
  show "daysSinceEpoch y + yd = n"
    using dsum unfolding daysSinceEpoch_def q400 q100 q4 by (simp add: y d_def)
  show "0 \<le> yd" by (rule ydb(1))
  have "isLeap y" if "yd = 365"
  proof -
    from that yd' have c: "c1 = 3" and e: "d3 = 1460" by auto
    have m4: "y mod 4 = 0"
      by (intro int_mod_pos_eq [of _ _ "100 * q + 25 * c100 + n4 + 1"]) (simp_all add: y c)
    have "y mod 400 = 0" if h: "y mod 100 = 0"
    proof -
      have "n4 = 24"
      proof (rule ccontr)
        assume "n4 \<noteq> 24"
        with n4 have b: "4 * n4 + 4 < 100" "0 \<le> 4 * n4 + 4" by simp_all
        have "y mod 100 = 4 * n4 + 4"
          using b by (intro int_mod_pos_eq [of _ _ "4 * q + c100"]) (simp_all add: y c)
        with b h n4 show False by simp
      qed
      with e have "d2 = 36524" by (simp add: d3_def)
      then have "c100 = 3" by (rule d2')
      then show ?thesis
        using \<open>n4 = 24\<close> c by (intro int_mod_pos_eq [of _ _ "q + 1"]) (simp_all add: y)
    qed
    with m4 show ?thesis unfolding isLeap_def by (cases "y mod 100 = 0") simp_all
  qed
  with ydb(2) show "yd < (if isLeap y then 366 else 365)"
    by (cases "yd = 365") auto
qed

lemma month_search:
  assumes "0 \<le> day" "day \<le> 364"
    and "monthSearch day = (m, dd)"
  shows "1 \<le> m \<and> m \<le> 12 \<and> 1 \<le> dd \<and> dd \<le> daysBefore m - daysBefore (m - 1) \<and>
    daysBefore (m - 1) + (dd - 1) = day"
proof -
  define k where "k = day div 31"
  define r where "r = day mod 31"
  have day: "day = 31 * k + r" and r: "0 \<le> r" "r < 31"
    by (simp_all add: k_def r_def)
  have "0 \<le> k" using assms(1) by (simp add: k_def pos_imp_zdiv_nonneg_iff)
  moreover have "k \<le> 11"
  proof -
    have "day div 31 \<le> 364 div 31" using assms(2) by (intro zdiv_mono1) simp_all
    then show ?thesis by (simp add: k_def)
  qed
  ultimately have k: "k = 0 \<or> k = 1 \<or> k = 2 \<or> k = 3 \<or> k = 4 \<or> k = 5 \<or> k = 6
    \<or> k = 7 \<or> k = 8 \<or> k = 9 \<or> k = 10 \<or> k = 11"
    by arith
  have e: "(if day \<ge> daysBefore (k + 1) then (k + 2, day - daysBefore (k + 1) + 1)
             else (k + 1, day - daysBefore k + 1)) = (m, dd)"
    using assms(3) by (simp only: monthSearch_def Let_def k_def)
  from k e show ?thesis
    using r assms(2) unfolding day
    by (elim disjE) (simp_all add: daysBefore_def split: if_splits)
qed

lemma month_cases:
  fixes m :: int
  assumes "1 \<le> m" "m \<le> 12"
  shows "m = 1 \<or> m = 2 \<or> m = 3 \<or> m = 4 \<or> m = 5 \<or> m = 6 \<or> m = 7 \<or> m = 8 \<or> m = 9
    \<or> m = 10 \<or> m = 11 \<or> m = 12"
  using assms by arith

lemma monthDay_sound:
  assumes "0 \<le> yd" "yd < (if isLeap y then 366 else 365)" "monthDay y yd = (m, dd)"
  shows "validDate y m dd" and "yearDay y m dd = yd"
proof -
  consider (feb29) "isLeap y" "yd = 59" | (late) "isLeap y" "yd > 59" | (plain) "\<not> isLeap y \<or> yd < 59"
    by linarith
  then have "validDate y m dd \<and> yearDay y m dd = yd"
  proof cases
    case feb29
    with assms(3) show ?thesis
      by (simp add: monthDay_def validDate_def yearDay_def daysIn_def daysBefore_def)
  next
    case late
    with assms(3) have "monthSearch (yd - 1) = (m, dd)"
      by (simp add: monthDay_def)
    from month_search [OF _ _ this] late assms(2)
    have ms: "1 \<le> m" "m \<le> 12" "1 \<le> dd" "dd \<le> daysBefore m - daysBefore (m - 1)"
      "daysBefore (m - 1) + (dd - 1) = yd - 1"
      by simp_all
    have "3 \<le> m"
    proof (rule ccontr)
      assume "\<not> 3 \<le> m"
      with ms(1) have "m = 1 \<or> m = 2" by arith
      with ms(3-5) late(2) show False by (auto simp: daysBefore_def)
    qed
    with ms late(1) show ?thesis
      by (simp add: validDate_def yearDay_def daysIn_def)
  next
    case plain
    with assms(3) have "monthSearch yd = (m, dd)"
      by (auto simp: monthDay_def)
    from month_search [OF _ _ this] plain assms(1,2)
    have ms: "1 \<le> m" "m \<le> 12" "1 \<le> dd" "dd \<le> daysBefore m - daysBefore (m - 1)"
      "daysBefore (m - 1) + (dd - 1) = yd"
      by (simp_all split: if_splits)
    have "m \<le> 2" if "isLeap y"
    proof (rule ccontr)
      assume "\<not> m \<le> 2"
      with month_cases [OF ms(1,2)] have "m = 3 \<or> m = 4 \<or> m = 5 \<or> m = 6 \<or> m = 7 \<or> m = 8
        \<or> m = 9 \<or> m = 10 \<or> m = 11 \<or> m = 12" by simp
      moreover have "yd < 59" using that plain by simp
      ultimately show False using ms(3-5) by (elim disjE) (simp_all add: daysBefore_def)
    qed
    with ms show ?thesis
      by (auto simp: validDate_def yearDay_def daysIn_def daysBefore_def)
  qed
  then show "validDate y m dd" and "yearDay y m dd = yd" by simp_all
qed

lemma yearDay_bounds:
  assumes "validDate y m dd"
  shows "0 \<le> yearDay y m dd" and "yearDay y m dd < (if isLeap y then 366 else 365)"
proof -
  from assms have m: "1 \<le> m" "m \<le> 12" and dd: "1 \<le> dd" "dd \<le> daysIn m y"
    by (simp_all add: validDate_def)
  from month_cases [OF m] dd
  have "0 \<le> yearDay y m dd \<and> yearDay y m dd < (if isLeap y then 366 else 365)"
    by (elim disjE) (simp_all add: yearDay_def daysIn_def daysBefore_def split: if_splits)
  then show "0 \<le> yearDay y m dd" and "yearDay y m dd < (if isLeap y then 366 else 365)"
    by simp_all
qed

lemma yearDay_inj:
  assumes "validDate y m dd" "validDate y m' dd'" "yearDay y m dd = yearDay y m' dd'"
  shows "m = m' \<and> dd = dd'"
proof -
  from assms(1) have m: "1 \<le> m" "m \<le> 12" and dd: "1 \<le> dd" "dd \<le> daysIn m y"
    by (simp_all add: validDate_def)
  from assms(2) have m': "1 \<le> m'" "m' \<le> 12" and dd': "1 \<le> dd'" "dd' \<le> daysIn m' y"
    by (simp_all add: validDate_def)
  from month_cases [OF m] month_cases [OF m'] dd dd' assms(3)
  show ?thesis
    by (elim disjE) (simp_all add: yearDay_def daysIn_def daysBefore_def split: if_splits)
qed

lemma dateToDays_valid:
  assumes "validDate y m dd"
  shows "dateToDays y m dd = daysSinceEpoch y + yearDay y m dd"
proof -
  from assms have m: "0 \<le> m - 1" "m - 1 < 12" by (simp_all add: validDate_def)
  then have "(m - 1) div 12 = 0" "(m - 1) mod 12 = m - 1" by simp_all
  then show ?thesis by (simp add: dateToDays_def yearDay_def Let_def)
qed


lemma dateToDays_day: "dateToDays y m (dd + k) = dateToDays y m dd + k"
  by (simp add: dateToDays_def Let_def)

lemma daysToDate_sound:
  assumes "daysToDate n = (y, m, dd)"
  shows "validDate y m dd" and "dateToDays y m dd = n"
proof -
  obtain yd where a: "absDate n = (y, yd)" and b: "monthDay y yd = (m, dd)"
    using assms by (auto simp: daysToDate_def split: prod.splits)
  note s = absDate_sound [OF a]
  note t = monthDay_sound [OF s(2,3) b]
  show "validDate y m dd" by (rule t(1))
  then show "dateToDays y m dd = n" using s(1) t(2) by (simp add: dateToDays_valid)
qed

lemma year_unique:
  assumes "daysSinceEpoch y \<le> n" "n < daysSinceEpoch y + (if isLeap y then 366 else 365)"
    and "daysSinceEpoch y' \<le> n" "n < daysSinceEpoch y' + (if isLeap y' then 366 else 365)"
  shows "y = y'"
proof (rule ccontr)
  assume "y \<noteq> y'"
  then consider "y + 1 \<le> y'" | "y' + 1 \<le> y" by linarith
  then show False
  proof cases
    case 1
    from daysSinceEpoch_mono [OF 1] assms(2,3) show False
      by (simp add: daysSinceEpoch_next)
  next
    case 2
    from daysSinceEpoch_mono [OF 2] assms(1,4) show False
      by (simp add: daysSinceEpoch_next)
  qed
qed

lemma daysToDate_dateToDays:
  assumes "validDate y m dd"
  shows "daysToDate (dateToDays y m dd) = (y, m, dd)"
proof -
  obtain y' m' dd' where e: "daysToDate (dateToDays y m dd) = (y', m', dd')"
    by (metis prod_cases3)
  note s = daysToDate_sound [OF e]
  note b = yearDay_bounds [OF assms] yearDay_bounds [OF s(1)]
  have n: "dateToDays y m dd = daysSinceEpoch y + yearDay y m dd"
    "dateToDays y m dd = daysSinceEpoch y' + yearDay y' m' dd'"
    using s(2) by (simp_all add: dateToDays_valid assms s(1))
  have "y' = y"
    by (rule year_unique [of _ "dateToDays y m dd"]) (use n b in simp_all)
  with n have "yearDay y m dd = yearDay y m' dd'" by simp
  with yearDay_inj [OF assms s(1) [unfolded \<open>y' = y\<close>]] have "m = m' \<and> dd = dd'" by simp
  with e \<open>y' = y\<close> show ?thesis by simp
qed


section \<open>Locations with a steady offset\<close>

lemma lookupFrom_bounds:
  assumes "lookupFrom off s ts x = (o1, s1, e1)" "\<forall>w. s = Some w \<longrightarrow> w \<le> x"
  shows "(\<forall>w. s1 = Some w \<longrightarrow> w \<le> x) \<and> (\<forall>w. e1 = Some w \<longrightarrow> x < w)"
  using assms
proof (induction ts arbitrary: off s)
  case Nil
  then show ?case by auto
next
  case (Cons p ts)
  obtain w n where p: "p = (w, n)" by (cases p)
  show ?case
  proof (cases "x < w")
    case True
    with Cons.prems p show ?thesis by auto
  next
    case False
    with Cons.prems p have "lookupFrom n (Some w) ts x = (o1, s1, e1)" by simp
    from Cons.IH [OF this] False show ?thesis by simp
  qed
qed

lemma lookupFrom_start:
  assumes "lookupFrom off (Some w0) ts a = (o1, s1, e1)"
    and "\<forall>p\<in>set ts. w0 < fst p" "sorted_wrt (<) (map fst ts)"
  shows "\<exists>w. s1 = Some w \<and> w0 \<le> w"
  using assms
proof (induction ts arbitrary: off w0)
  case Nil
  then show ?case by auto
next
  case (Cons p ts)
  obtain w n where p: "p = (w, n)" by (cases p)
  show ?case
  proof (cases "a < w")
    case True
    with Cons.prems p show ?thesis by auto
  next
    case False
    with Cons.prems p have l: "lookupFrom n (Some w) ts a = (o1, s1, e1)" by simp
    have "\<forall>q\<in>set ts. w < fst q" "sorted_wrt (<) (map fst ts)"
      using Cons.prems(3) p by auto
    from Cons.IH [OF l this] obtain w' where "s1 = Some w'" "w \<le> w'" by auto
    moreover have "w0 < w" using Cons.prems(2) p by simp
    ultimately show ?thesis by simp
  qed
qed

lemma lookupFrom_same:
  assumes "sorted_wrt (<) (map fst ts)" "lookupFrom off s ts a = (o1, s1, e1)"
    and "\<forall>w. s1 = Some w \<longrightarrow> w \<le> x" "\<forall>w. e1 = Some w \<longrightarrow> x < w"
  shows "lookupFrom off s ts x = (o1, s1, e1)"
  using assms
proof (induction ts arbitrary: off s)
  case Nil
  then show ?case by auto
next
  case (Cons p ts)
  obtain w n where p: "p = (w, n)" by (cases p)
  show ?case
  proof (cases "a < w")
    case True
    with Cons.prems p show ?thesis by auto
  next
    case False
    with Cons.prems p have l: "lookupFrom n (Some w) ts a = (o1, s1, e1)" by simp
    have s: "\<forall>q\<in>set ts. w < fst q" "sorted_wrt (<) (map fst ts)"
      using Cons.prems(1) p by auto
    from lookupFrom_start [OF l s] Cons.prems(3) have "w \<le> x" by auto
    with Cons.IH [OF s(2) l Cons.prems(3,4)] p show ?thesis by simp
  qed
qed

text \<open>Where the offset is steady every lookup gives the same offset and span.\<close>

lemma steady_bounds:
  assumes "offsetSteady l a b" "lookup l a = (off, s, e)"
  shows "sorted_wrt (<) (map fst (transitions l))"
    and "s = Some w \<Longrightarrow> w + \<bar>off\<bar> \<le> a"
    and "e = Some w \<Longrightarrow> b + \<bar>off\<bar> < w"
  using assms by (simp_all add: offsetSteady_def)

lemma steady_lookup:
  assumes "offsetSteady l a b" "lookup l a = (off, s, e)"
    and "a - \<bar>off\<bar> \<le> x" "x \<le> b + \<bar>off\<bar>"
  shows "lookup l x = (off, s, e)"
proof -
  note sb = steady_bounds [OF assms(1,2)]
  have 1: "\<forall>w. s = Some w \<longrightarrow> w \<le> x"
  proof (intro allI impI)
    fix w assume "s = Some w"
    from sb(2) [OF this] assms(3) show "w \<le> x" by linarith
  qed
  have 2: "\<forall>w. e = Some w \<longrightarrow> x < w"
  proof (intro allI impI)
    fix w assume "e = Some w"
    from sb(3) [OF this] assms(4) show "x < w" by linarith
  qed
  show ?thesis
    using assms(2) unfolding lookup_def by (intro lookupFrom_same [OF sb(1) _ 1 2])
qed

lemma steady_zone:
  assumes "offsetSteady l a b" "Location t = l" "a \<le> unixSec t" "unixSec t \<le> b"
  shows "zone t = fst (lookup l a)"
proof -
  obtain off s e where l: "lookup l a = (off, s, e)" by (metis prod_cases3)
  have "lookup l (unixSec t) = (off, s, e)"
    using assms(3,4) by (intro steady_lookup [OF assms(1) l]) simp_all
  then show ?thesis by (simp add: zone_def assms(2) l)
qed

text \<open>
  Where the offset is steady, \<^verbatim>\<open>time.Date\<close> is the wall-clock time minus the offset.
\<close>

lemma timeDate_steady:
  assumes st: "offsetSteady l a b" and off: "fst (lookup l a) = off"
    and u: "u = dateToDays y m d * 86400 + h * 3600 + mi * 60 + s"
    and w: "a \<le> u - off" "u - off \<le> b" and ns: "0 \<le> ns" "ns < 1000000000"
  shows "timeDate y m d h mi s ns l = \<lparr>unixNano = (u - off) * 1000000000 + ns, location = l\<rparr>"
proof -
  from off obtain s1 e1 where l: "lookup l a = (off, s1, e1)" by (cases "lookup l a") auto
  note sb = steady_bounds [OF st l]
  have n: "ns div 1000000000 = 0" "ns mod 1000000000 = ns" using ns by simp_all
  have lu: "lookup l u = (off, s1, e1)"
    using w by (intro steady_lookup [OF st l]) linarith+
  have 1: "\<not> (case s1 of None \<Rightarrow> False | Some w \<Rightarrow> u - off < w)"
  proof (cases s1)
    case None
    then show ?thesis by simp
  next
    case (Some w)
    from sb(2) [OF this] w(1) have "w \<le> u - off" by linarith
    with Some show ?thesis by simp
  qed
  have 2: "\<not> (case e1 of None \<Rightarrow> False | Some w \<Rightarrow> w \<le> u - off)"
  proof (cases e1)
    case None
    then show ?thesis by simp
  next
    case (Some w)
    from sb(3) [OF this] w(2) have "u - off < w" by linarith
    with Some show ?thesis by simp
  qed
  show ?thesis
    unfolding timeDate_def n u [symmetric] by (simp add: Let_def lu 1 2)
qed


section \<open>Adding days to a time\<close>

lemma clock_sum:
  fixes s :: int
  shows "(s div 3600) * 3600 + ((s mod 3600) div 60) * 60 + s mod 60 = s"
proof -
  define r where "r = s mod 3600"
  have a: "s = (s div 3600) * 3600 + r" by (simp add: r_def)
  have b: "r = (r div 60) * 60 + r mod 60" by simp
  have "(60::int) dvd 3600" by simp
  then have c: "s mod 60 = r mod 60" unfolding r_def by (simp add: mod_mod_cancel)
  show ?thesis unfolding c r_def [symmetric] using a b by linarith
qed

lemma localNano_split: "localNano t = localDay t * 86400000000000 + nanoOfDay t"
  by (simp add: localDay_def nanoOfDay_def)

lemma nanoOfDay_split: "nanoOfDay t = (nanoOfDay t div 1000000000) * 1000000000 + Nanosecond t"
  by (simp add: Nanosecond_def)

lemma dateToDays_Date:
  assumes "Date t = (y, m, dd)"
  shows "dateToDays y m dd = localDay t" and "validDate y m dd"
  using daysToDate_sound [of "localDay t" y m dd] assms by (simp_all add: Date_def)

lemma nanosecond_bounds: "0 \<le> Nanosecond t" "Nanosecond t < 1000000000"
  by (simp_all add: Nanosecond_def)

text \<open>The instant of a time, from its local day, the second of that day and its offset.\<close>

lemma unix_split:
  "unixNano t =
     (localDay t * 86400 + nanoOfDay t div 1000000000 - zone t) * 1000000000 + Nanosecond t"
  "unixSec t = localDay t * 86400 + nanoOfDay t div 1000000000 - zone t"
proof -
  define s where "s = nanoOfDay t div 1000000000"
  have n: "nanoOfDay t = s * 1000000000 + Nanosecond t"
    unfolding s_def by (rule nanoOfDay_split)
  have "unixNano t = localNano t - zone t * 1000000000" by (simp add: localNano_def)
  also have "\<dots> = (localDay t * 86400 + s - zone t) * 1000000000 + Nanosecond t"
    unfolding localNano_split n by (simp add: algebra_simps)
  finally show u: "unixNano t =
     (localDay t * 86400 + nanoOfDay t div 1000000000 - zone t) * 1000000000 + Nanosecond t"
    by (simp add: s_def)
  have "unixNano t = 1000000000 * (localDay t * 86400 + s - zone t) + Nanosecond t"
    using u by (simp add: s_def)
  then show "unixSec t = localDay t * 86400 + nanoOfDay t div 1000000000 - zone t"
    unfolding unixSec_def s_def [symmetric]
    using nanosecond_bounds [of t] by (intro int_div_pos_eq [of _ _ _ "Nanosecond t"])
qed

lemma unix_nano: "unixNano t = unixSec t * 1000000000 + Nanosecond t"
  using unix_split(1) [of t] unfolding unix_split(2) [symmetric] .

text \<open>
  Where the offset of the location is steady from \<open>t\<close> to \<open>k\<close> days on, \<^verbatim>\<open>AddDate\<close>
  moves the instant by exactly \<open>k\<close> days.
\<close>

lemma AddDate_days:
  assumes st: "offsetSteady l a b" and t: "Location t = l" "a \<le> unixSec t" "unixSec t \<le> b"
    and k: "a \<le> unixSec t + k * 86400" "unixSec t + k * 86400 \<le> b"
  shows "AddDate t 0 0 k = \<lparr>unixNano = unixNano t + k * 86400000000000, location = l\<rparr>"
proof -
  obtain y m dd where d: "Date t = (y, m, dd)" by (metis prod_cases3)
  define s where "s = nanoOfDay t div 1000000000"
  define ns where "ns = Nanosecond t"
  define u where "u = dateToDays y m (dd + k) * 86400
    + (s div 3600) * 3600 + ((s mod 3600) div 60) * 60 + s mod 60"
  have z: "fst (lookup l a) = zone t" by (rule steady_zone [OF st t, symmetric])
  have c: "Clock t = (s div 3600, (s mod 3600) div 60, s mod 60)"
    by (simp add: Clock_def s_def Let_def)
  have e: "AddDate t 0 0 k =
    timeDate y m (dd + k) (s div 3600) ((s mod 3600) div 60) (s mod 60) ns l"
    by (simp add: AddDate_def d c ns_def t(1))
  have "u = (localDay t + k) * 86400
      + ((s div 3600) * 3600 + ((s mod 3600) div 60) * 60 + s mod 60)"
    by (simp add: u_def dateToDays_day dateToDays_Date(1) [OF d])
  then have u: "u = (localDay t + k) * 86400 + s" by (simp only: clock_sum)
  have us: "u - zone t = unixSec t + k * 86400"
    unfolding u unix_split(2) s_def by (simp add: algebra_simps)
  have "timeDate y m (dd + k) (s div 3600) ((s mod 3600) div 60) (s mod 60) ns l
      = \<lparr>unixNano = (u - zone t) * 1000000000 + ns, location = l\<rparr>"
    using k nanosecond_bounds [of t] unfolding us [symmetric] ns_def
    by (intro timeDate_steady [OF st z]) (simp_all add: u_def)
  also have "(u - zone t) * 1000000000 + ns = unixNano t + k * 86400000000000"
    unfolding us ns_def by (simp add: unix_nano [of t] algebra_simps)
  finally show ?thesis unfolding e .
qed

lemma AddDate_window:
  assumes st: "offsetSteady l a b" and t: "Location t = l" "a \<le> unixSec t" "unixSec t \<le> b"
    and k: "a \<le> unixSec t + k * 86400" "unixSec t + k * 86400 \<le> b"
  shows "unixNano (AddDate t 0 0 k) = unixNano t + k * 86400000000000"
    and "Location (AddDate t 0 0 k) = l"
    and "unixSec (AddDate t 0 0 k) = unixSec t + k * 86400"
    and "zone (AddDate t 0 0 k) = zone t"
    and "localDay (AddDate t 0 0 k) = localDay t + k"
    and "nanoOfDay (AddDate t 0 0 k) = nanoOfDay t"
proof -
  note e = AddDate_days [OF st t k]
  show n: "unixNano (AddDate t 0 0 k) = unixNano t + k * 86400000000000"
    and l: "Location (AddDate t 0 0 k) = l"
    by (simp_all add: e Location_def)
  have "unixNano t + k * 86400000000000 = unixNano t + (k * 86400) * 1000000000" by simp
  then show s: "unixSec (AddDate t 0 0 k) = unixSec t + k * 86400"
    unfolding unixSec_def n by (simp only: div_mult_self1 [of 1000000000])
  have "zone (AddDate t 0 0 k) = fst (lookup l a)"
    using k by (intro steady_zone [OF st l]) (simp_all add: s)
  then show z: "zone (AddDate t 0 0 k) = zone t" by (simp add: steady_zone [OF st t])
  have "localNano (AddDate t 0 0 k) = localNano t + k * 86400000000000"
    by (simp add: localNano_def n z)
  then show "localDay (AddDate t 0 0 k) = localDay t + k"
    and "nanoOfDay (AddDate t 0 0 k) = nanoOfDay t"
    by (simp_all add: localDay_def nanoOfDay_def)
qed


section \<open>The business-day predicate\<close>

lemma isSameDay_iff: "isSameDay day1 day2 \<longleftrightarrow> Date day1 = Date day2"
  by (auto simp: isSameDay_def split: prod.splits)

lemma holidayLoop_iff:
  "holidayLoop day holidays \<longleftrightarrow> (\<forall>h\<in>set holidays. \<not> isSameDay day h)"
  by (induction holidays) simp_all

text \<open>Two times with the same calendar date lie on the same day number.\<close>

lemma Date_eq_localDay:
  assumes "Date t = Date u"
  shows "localDay t = localDay u"
proof -
  obtain y m dd where d: "Date t = (y, m, dd)" by (metis prod_cases3)
  from dateToDays_Date(1) [OF d] dateToDays_Date(1) [of u y m dd] assms d
  show ?thesis by simp
qed

text \<open>
  C7. \<^verbatim>\<open>isBusinessDay\<close> is true exactly when the day is not a Saturday, not a
  Sunday, and no holiday has its year, month and day; so it is false on every
  Saturday and every Sunday, whatever the holiday list.
\<close>

theorem isBusinessDay_iff:
  "isBusinessDay day holidays \<longleftrightarrow>
     Weekday day \<noteq> Saturday \<and> Weekday day \<noteq> Sunday \<and>
     (\<forall>h\<in>set holidays. Date h \<noteq> Date day)"
  by (auto simp: isBusinessDay_def holidayLoop_iff isSameDay_iff)

text \<open>
  At Monday 2025-01-06 10:30 in UTC+9, with New Year's Day 2025 (midnight UTC) as the
  only holiday, the right-hand side holds, and the theorem gives a business day.
\<close>

theorem isBusinessDay_iff_witness:
  "isBusinessDay (timeDate 2025 1 6 10 30 0 0 (FixedZone 32400))
     [timeDate 2025 1 1 0 0 0 0 UTC]"
proof -
  let ?t = "timeDate 2025 1 6 10 30 0 0 (FixedZone 32400)"
  let ?hs = "[timeDate 2025 1 1 0 0 0 0 UTC]"
  have "Weekday ?t \<noteq> Saturday \<and> Weekday ?t \<noteq> Sunday \<and> (\<forall>h\<in>set ?hs. Date h \<noteq> Date ?t)"
    by code_simp
  then show ?thesis by (rule iffD2 [OF isBusinessDay_iff])
qed

text \<open>
  C9. The result of \<^verbatim>\<open>isBusinessDay\<close> depends only on the calendar date of its
  argument: two times with the same year, month and day get the same answer for the
  same holiday list, whatever their times of day.
\<close>

theorem isBusinessDay_date_only:
  assumes "Date t1 = Date t2"
  shows "isBusinessDay t1 holidays = isBusinessDay t2 holidays"
proof -
  have "Weekday t1 = Weekday t2"
    using Date_eq_localDay [OF assms] by (simp add: Weekday_def)
  then show ?thesis
    using assms by (simp add: isBusinessDay_def holidayLoop_iff isSameDay_iff)
qed

text \<open>
  Wednesday 2025-01-01 at 00:00:00 and at 23:59:59.5 in UTC+9 have the same date;
  with that day as a holiday both are not business days.
\<close>

theorem isBusinessDay_date_only_witness:
  "Date (timeDate 2025 1 1 0 0 0 0 (FixedZone 32400))
     = Date (timeDate 2025 1 1 23 59 59 500000000 (FixedZone 32400))
   \<and> isBusinessDay (timeDate 2025 1 1 0 0 0 0 (FixedZone 32400))
       [timeDate 2025 1 1 0 0 0 0 UTC]
     = isBusinessDay (timeDate 2025 1 1 23 59 59 500000000 (FixedZone 32400))
       [timeDate 2025 1 1 0 0 0 0 UTC]"
proof -
  have d: "Date (timeDate 2025 1 1 0 0 0 0 (FixedZone 32400))
     = Date (timeDate 2025 1 1 23 59 59 500000000 (FixedZone 32400))"
    by code_simp
  from d isBusinessDay_date_only [OF d] show ?thesis by simp
qed


section \<open>The range counter\<close>

lemma weekdayOf_cases:
  "weekdayOf n \<in> {Monday, Tuesday, Wednesday, Thursday, Friday} \<longleftrightarrow>
   weekdayOf n \<noteq> Saturday \<and> weekdayOf n \<noteq> Sunday"
  by (cases "weekdayOf n") simp_all

lemma isBusinessDay_businessDate: "isBusinessDay t holidays = businessDate holidays (localDay t)"
proof -
  have "(\<forall>h\<in>set holidays. Date t \<noteq> Date h) \<longleftrightarrow> daysToDate (localDay t) \<notin> Date ` set holidays"
    by (auto simp: Date_def)
  then show ?thesis
    unfolding businessDate_def weekdayOf_cases
    by (simp add: isBusinessDay_def holidayLoop_iff isSameDay_iff Weekday_def)
qed

lemma steps_rec:
  fixes x D :: int
  assumes "0 < D" "0 \<le> x"
  shows "x div D + 1 = (if x - D < 0 then 0 else (x - D) div D + 1) + 1"
proof (cases "x < D")
  case True
  with assms show ?thesis by (simp add: div_pos_pos_trivial)
next
  case False
  have "(x - D + D) div D = (x - D) div D + 1" using assms(1) by (subst div_add_self2) simp_all
  with False show ?thesis by simp
qed

lemma loopSteps_step:
  assumes "\<not> After d endT" "unixNano d' = unixNano d + 86400000000000"
  shows "loopSteps d endT = loopSteps d' endT + 1"
proof -
  define x where "x = unixNano endT - unixNano d"
  have x: "0 \<le> x" using assms(1) by (simp add: After_def x_def)
  have e: "unixNano endT - unixNano d' = x - 86400000000000"
    by (simp add: assms(2) x_def)
  have a: "After d' endT \<longleftrightarrow> x - 86400000000000 < 0"
    unfolding After_def assms(2) x_def by linarith
  show ?thesis
    unfolding loopSteps_def a e using assms(1) steps_rec [OF _ x, of 86400000000000]
    by (simp add: x_def)
qed

lemma loopSteps_nonneg: "0 \<le> loopSteps d endT"
  by (simp add: loopSteps_def After_def pos_imp_zdiv_nonneg_iff)

lemma unixSec_mono: "unixNano t \<le> unixNano u \<Longrightarrow> unixSec t \<le> unixSec u"
  unfolding unixSec_def by (intro zdiv_mono1) simp_all

text \<open>
  Where the offset of the location is steady from the first day looked at to a day
  after \<open>endT\<close>, the loop returns, and it has looked at one day number after the other.
\<close>

lemma rangeLoop_count:
  assumes st: "offsetSteady l a (unixSec endT + 86400)"
  shows "Location d = l \<Longrightarrow> a \<le> unixSec d \<Longrightarrow>
    rangeLoop d endT holidays count =
      Some (count + int (length (filter (businessDate holidays)
        [localDay d .. localDay d + loopSteps d endT - 1])))"
proof (induction n \<equiv> "nat (unixNano endT - unixNano d + 1)" arbitrary: d count rule: less_induct)
  case less
  show ?case
  proof (cases "After d endT")
    case True
    then show ?thesis by (subst rangeLoop.simps) (simp add: loopSteps_def)
  next
    case False
    then have le: "unixSec d \<le> unixSec endT" by (intro unixSec_mono) (simp add: After_def)
    let ?d = "AddDate d 0 0 1"
    have k: "unixSec d \<le> unixSec endT + 86400" "a \<le> unixSec d + 1 * 86400"
      "unixSec d + 1 * 86400 \<le> unixSec endT + 86400"
      using less.prems(2) le by simp_all
    note w0 = AddDate_window [OF st less.prems(1,2) k]
    have w: "unixNano ?d = unixNano d + 86400000000000" "Location ?d = l"
      "unixSec ?d = unixSec d + 1 * 86400" "localDay ?d = localDay d + 1"
      using w0(1-3,5) by simp_all
    have m: "nat (unixNano endT - unixNano ?d + 1) < nat (unixNano endT - unixNano d + 1)"
      using False by (simp add: w(1) After_def)
    have s: "loopSteps d endT = loopSteps ?d endT + 1"
      by (rule loopSteps_step [OF False w(1)])
    have u: "[localDay d .. localDay d + loopSteps d endT - 1] =
      localDay d # [localDay d + 1 .. localDay d + 1 + loopSteps ?d endT - 1]"
      using loopSteps_nonneg [of ?d endT]
      by (subst upto_rec1) (simp_all add: s)
    have ih: "rangeLoop ?d endT holidays c =
      Some (c + int (length (filter (businessDate holidays)
        [localDay ?d .. localDay ?d + loopSteps ?d endT - 1])))" for c
      using less.prems(2) by (intro less.hyps [OF m w(2)]) (simp add: w(3))
    show ?thesis
      using False by (subst rangeLoop.simps) (simp add: ih u w(4) isBusinessDay_businessDate)
  qed
qed

lemma nanoOfDay_bounds: "0 \<le> nanoOfDay t" "nanoOfDay t < 86400000000000"
  by (simp_all add: nanoOfDay_def)

lemma loopSteps_aligned:
  assumes "\<not> Before endT start" "zone endT = zone start" "nanoOfDay start \<le> nanoOfDay endT"
  shows "loopSteps start endT = localDay endT - localDay start + 1"
proof -
  define r where "r = nanoOfDay endT - nanoOfDay start"
  have r: "0 \<le> r" "r < 86400000000000"
    using assms(3) nanoOfDay_bounds [of endT] nanoOfDay_bounds [of start] by (simp_all add: r_def)
  have "unixNano endT - unixNano start = localNano endT - localNano start"
    using assms(2) by (simp add: localNano_def)
  also have "\<dots> = 86400000000000 * (localDay endT - localDay start) + r"
    unfolding localNano_split r_def by (simp add: algebra_simps)
  finally have "(unixNano endT - unixNano start) div 86400000000000 = localDay endT - localDay start"
    using r by (intro int_div_pos_eq [of _ _ _ r])
  then show ?thesis using assms(1) by (simp add: loopSteps_def After_def Before_def)
qed


text \<open>Start and end in one span of steady offset have the same offset.\<close>

lemma steady_range:
  assumes "\<not> Before endT start" "Location endT = Location start"
    and "offsetSteady (Location start) (unixSec start) (unixSec endT + 86400)"
  shows "zone endT = zone start"
proof -
  have le: "unixSec start \<le> unixSec endT"
    using assms(1) by (intro unixSec_mono) (simp add: Before_def)
  have "zone endT = fst (lookup (Location start) (unixSec start))"
    using le by (intro steady_zone [OF assms(3,2)]) simp_all
  moreover have "zone start = fst (lookup (Location start) (unixSec start))"
    using le by (intro steady_zone [OF assms(3)]) simp_all
  ultimately show ?thesis by simp
qed

lemma calc_aligned:
  assumes "\<not> Before endT start" "Location endT = Location start"
    and "nanoOfDay start \<le> nanoOfDay endT"
    and "offsetSteady (Location start) (unixSec start) (unixSec endT + 86400)"
  shows "calcBusinessDaysInRange start endT holidays =
    Some (Inr (int (length (filter (businessDate holidays) [localDay start .. localDay endT]))))"
proof -
  have "localDay start + loopSteps start endT - 1 = localDay endT"
    by (simp add: loopSteps_aligned [OF assms(1) steady_range [OF assms(1,2,4)] assms(3)])
  then show ?thesis
    using assms(1) by (simp add: calcBusinessDaysInRange_def rangeLoop_count [OF assms(4)])
qed

lemma filter_upto_mono:
  fixes a b c :: int
  assumes "b \<le> c"
  shows "length (filter P [a..b]) \<le> length (filter P [a..c])"
proof (cases "a \<le> b")
  case True
  from upto_split2 [OF True assms] show ?thesis by simp
next
  case False
  then show ?thesis by simp
qed

text \<open>
  Whenever the loop returns, for an end and a counter, it returns for every earlier
  end too, with a result between the counter and the result for the later end.
\<close>

lemma rangeLoop_mono:
  assumes "rangeLoop d e2 holidays count = Some b"
  shows "count \<le> b \<and>
    (\<forall>e1. unixNano e1 \<le> unixNano e2 \<longrightarrow>
       (\<exists>a. rangeLoop d e1 holidays count = Some a \<and> count \<le> a \<and> a \<le> b))"
  using assms
proof (induction d e2 holidays count b rule: rangeLoop.raw_induct [rotated -1, consumes 1])
  case (1 f d e2 holidays count b)
  show ?case
  proof (cases "After d e2")
    case True
    with 1(2) have b: "b = count" by simp
    have "rangeLoop d e1 holidays count = Some count" if "unixNano e1 \<le> unixNano e2" for e1
      using that True by (subst rangeLoop.simps) (simp add: After_def)
    with b show ?thesis by simp
  next
    case False
    define c where "c = (if isBusinessDay d holidays then count + 1 else count)"
    have c: "count \<le> c" by (simp add: c_def)
    from False 1(2) have "f (AddDate d 0 0 1) e2 holidays c = Some b" by (simp add: c_def)
    note ih = 1(1) [OF this]
    have "\<exists>a. rangeLoop d e1 holidays count = Some a \<and> count \<le> a \<and> a \<le> b"
      if le: "unixNano e1 \<le> unixNano e2" for e1
    proof (cases "After d e1")
      case True
      then have "rangeLoop d e1 holidays count = Some count" by (subst rangeLoop.simps) simp
      with ih c show ?thesis by simp
    next
      case False
      from ih le obtain a where
        a: "rangeLoop (AddDate d 0 0 1) e1 holidays c = Some a" "c \<le> a" "a \<le> b" by blast
      have "rangeLoop d e1 holidays count = Some a"
        using False a(1) by (subst rangeLoop.simps) (simp add: c_def)
      with a c show ?thesis by simp
    qed
    with ih c show ?thesis by auto
  qed
qed

lemma calc_result:
  assumes "\<not> Before endT start" "calcBusinessDaysInRange start endT holidays = Some r"
  shows "\<exists>n. r = Inr n \<and> 0 \<le> n"
proof -
  from assms obtain n where n: "rangeLoop start endT holidays 0 = Some n" "r = Inr n"
    by (auto simp: calcBusinessDaysInRange_def)
  from rangeLoop_mono [OF n(1)] n(2) show ?thesis by simp
qed



lemma offsetSteady_shrink:
  assumes "offsetSteady l a b" "b' \<le> b"
  shows "offsetSteady l a b'"
proof -
  obtain off s e where l: "lookup l a = (off, s, e)" by (metis prod_cases3)
  note sb = steady_bounds [OF assms(1) l]
  have "case e of None \<Rightarrow> True | Some w \<Rightarrow> b' + \<bar>off\<bar> < w"
  proof (cases e)
    case None
    then show ?thesis by simp
  next
    case (Some w)
    from sb(3) [OF this] assms(2) have "b' + \<bar>off\<bar> < w" by linarith
    with Some show ?thesis by simp
  qed
  moreover have "case s of None \<Rightarrow> True | Some w \<Rightarrow> w + \<bar>off\<bar> \<le> a"
    using sb(2) by (cases s) simp_all
  ultimately show ?thesis by (simp add: offsetSteady_def sb(1) l)
qed


text \<open>A location without offset changes is steady everywhere.\<close>

lemma offsetSteady_fixed: "transitions l = [] \<Longrightarrow> offsetSteady l a b"
  by (simp add: offsetSteady_def lookup_def)


lemma rangeLoop_stuck:
  assumes "AddDate d 0 0 1 = d" "\<not> After d endT"
  shows "rangeLoop d endT holidays count = None"
proof -
  have "rangeLoop d' e' hs c = Some y \<Longrightarrow> d' = d \<Longrightarrow> e' = endT \<Longrightarrow> False" for d' e' hs c y
  proof (induction d' e' hs c y rule: rangeLoop.raw_induct [rotated -1, consumes 1])
    case (1 f d' e' hs c y)
    with assms show ?case by (auto split: if_splits)
  qed
  note stuck = this [OF _ refl refl]
  show ?thesis
  proof (rule ccontr)
    assume "rangeLoop d endT holidays count \<noteq> None"
    then obtain y where "rangeLoop d endT holidays count = Some y" by auto
    then show False by (rule stuck)
  qed
qed







text \<open>
  Where the offset is not steady the loop need not end. \<^verbatim>\<open>Pacific/Apia\<close> had no
  2011-12-30: one day after 2011-12-29 00:00 is, for \<^verbatim>\<open>AddDate\<close>, 2011-12-29 00:00
  again, so from that start and with a later end the loop never passes end and the
  call does not return.
\<close>

lemma calcBusinessDaysInRange_apia:
  "\<not> Before (timeDate 2011 12 31 0 0 0 0 apia) (timeDate 2011 12 29 0 0 0 0 apia) \<and>
   AddDate (timeDate 2011 12 29 0 0 0 0 apia) 0 0 1 = timeDate 2011 12 29 0 0 0 0 apia \<and>
   calcBusinessDaysInRange (timeDate 2011 12 29 0 0 0 0 apia)
     (timeDate 2011 12 31 0 0 0 0 apia) holidays = None"
proof -
  let ?s = "timeDate 2011 12 29 0 0 0 0 apia"
  let ?e = "timeDate 2011 12 31 0 0 0 0 apia"
  have a: "AddDate ?s 0 0 1 = ?s" by code_simp
  have b: "\<not> After ?s ?e" by code_simp
  have c: "\<not> Before ?e ?s" by code_simp
  from rangeLoop_stuck [OF a b] a c show ?thesis
    by (simp add: calcBusinessDaysInRange_def)
qed





section \<open>The month boundaries\<close>

text \<open>
  Where the offset is steady, a time built by \<^verbatim>\<open>time.Date\<close> from a date and a clock
  within the day shows that date and that clock.
\<close>

lemma timeDate_local:
  assumes st: "offsetSteady l a b" and off: "fst (lookup l a) = off"
    and c: "c = h * 3600 + mi * 60 + s" "0 \<le> c" "c < 86400"
    and w: "a \<le> dateToDays y m d * 86400 + c - off" "dateToDays y m d * 86400 + c - off \<le> b"
    and ns: "0 \<le> ns" "ns < 1000000000"
  shows "Location (timeDate y m d h mi s ns l) = l"
    and "unixSec (timeDate y m d h mi s ns l) = dateToDays y m d * 86400 + c - off"
    and "zone (timeDate y m d h mi s ns l) = off"
    and "localDay (timeDate y m d h mi s ns l) = dateToDays y m d"
    and "nanoOfDay (timeDate y m d h mi s ns l) = c * 1000000000 + ns"
proof -
  let ?t = "timeDate y m d h mi s ns l"
  define u where "u = dateToDays y m d * 86400 + h * 3600 + mi * 60 + s"
  have uc: "u = dateToDays y m d * 86400 + c" by (simp add: u_def c(1))
  have e: "?t = \<lparr>unixNano = (u - off) * 1000000000 + ns, location = l\<rparr>"
    using w ns unfolding uc [symmetric] by (intro timeDate_steady [OF st off u_def])
  show l: "Location ?t = l" by (simp add: e Location_def)
  have un: "unixNano ?t = 1000000000 * (u - off) + ns" by (simp add: e)
  then have "unixSec ?t = u - off"
    unfolding unixSec_def using ns by (intro int_div_pos_eq [of _ _ _ ns])
  then show us: "unixSec ?t = dateToDays y m d * 86400 + c - off" by (simp add: uc)
  have "zone ?t = fst (lookup l a)"
    using w by (intro steady_zone [OF st l]) (simp_all add: us)
  then show z: "zone ?t = off" by (simp add: off)
  define r where "r = c * 1000000000 + ns"
  have r: "0 \<le> r" "r < 86400000000000" using c(2,3) ns by (simp_all add: r_def)
  have "localNano ?t = unixNano ?t + off * 1000000000" by (simp only: localNano_def z)
  then have "localNano ?t = 86400000000000 * dateToDays y m d + r"
    unfolding un by (simp add: uc r_def algebra_simps)
  then show "localDay ?t = dateToDays y m d" and "nanoOfDay ?t = c * 1000000000 + ns"
    using r unfolding localDay_def nanoOfDay_def r_def [symmetric]
    by (simp_all only: int_div_pos_eq [of _ _ _ r] int_mod_pos_eq [of _ _ _ r])
qed

lemma daysIn_pos:
  assumes "1 \<le> m" "m \<le> 12"
  shows "28 \<le> daysIn m y"
  using month_cases [OF assms] by (elim disjE) (simp_all add: daysIn_def daysBefore_def)

lemma midnight_clock:
  assumes "nanoOfDay t = 0"
  shows "Clock t = (0, 0, 0)" and "Nanosecond t = 0"
  using assms by (simp_all add: Clock_def Nanosecond_def)

lemma dateToDays_next_month:
  assumes "1 \<le> m" "m \<le> 12"
  shows "dateToDays y (m + 1) 1 = dateToDays y m 1 + daysIn m y"
  using month_cases [OF assms]
  by (elim disjE) (simp_all add: dateToDays_def daysIn_def daysBefore_def daysSinceEpoch_next)

lemma Date_valid:
  assumes "Date t = (y, m, dd)"
  shows "1 \<le> m" "m \<le> 12" "1 \<le> dd" "dd \<le> daysIn m y"
  using dateToDays_Date(2) [OF assms] by (simp_all add: validDate_def)

text \<open>
  The span of a steady month: from the first midnight of the month of \<open>t\<close> to a day
  after the first midnight of the next month, both taken at the offset of \<open>t\<close>.
\<close>

lemma month_window:
  assumes sm: "steadyMonth t" and d: "Date t = (y, m, dd)"
  defines "a \<equiv> dateToDays y m 1 * 86400 - zone t"
  defines "b \<equiv> dateToDays y (m + 1) 1 * 86400 - zone t + 86400"
  shows "offsetSteady (Location t) a b"
    and "dateToDays y (m + 1) 1 = dateToDays y m 1 + daysIn m y"
    and "a \<le> unixSec t" and "unixSec t + 86400 \<le> b"
    and "fst (lookup (Location t) a) = zone t"
proof -
  note v = Date_valid [OF d]
  show st: "offsetSteady (Location t) a b"
    using sm by (simp add: steadyMonth_def Year_def Month_def d a_def b_def)
  show nm: "dateToDays y (m + 1) 1 = dateToDays y m 1 + daysIn m y"
    by (rule dateToDays_next_month [OF v(1,2)])
  define sod where "sod = nanoOfDay t div 1000000000"
  have sod: "0 \<le> sod" "sod < 86400"
  proof -
    show "0 \<le> sod"
      using nanoOfDay_bounds(1) [of t] by (simp add: sod_def pos_imp_zdiv_nonneg_iff)
    have "nanoOfDay t div 1000000000 \<le> 86399999999999 div 1000000000"
      using nanoOfDay_bounds(2) [of t] by (intro zdiv_mono1) simp_all
    then show "sod < 86400" by (simp add: sod_def)
  qed
  have ld: "localDay t = dateToDays y m 1 + (dd - 1)"
    using dateToDays_Date(1) [OF d] dateToDays_day [of y m 1 "dd - 1"] by simp
  have us: "unixSec t = (dateToDays y m 1 + (dd - 1)) * 86400 + sod - zone t"
    by (simp add: unix_split(2) [of t] ld sod_def)
  show lo: "a \<le> unixSec t" using v(3) sod(1) by (simp add: us a_def)
  show hi: "unixSec t + 86400 \<le> b" using v(4) sod(2) by (simp add: us b_def nm)
  show "fst (lookup (Location t) a) = zone t"
    using lo hi by (intro steady_zone [OF st, symmetric]) simp_all
qed

lemma beginningOfMonth_local:
  assumes sm: "steadyMonth t" and d: "Date t = (y, m, dd)"
  shows "Location (beginningOfMonth t) = Location t"
    and "unixSec (beginningOfMonth t) = dateToDays y m 1 * 86400 - zone t"
    and "zone (beginningOfMonth t) = zone t"
    and "localDay (beginningOfMonth t) = dateToDays y m 1"
    and "nanoOfDay (beginningOfMonth t) = 0"
    and "Date (beginningOfMonth t) = (y, m, 1)"
proof -
  note mw = month_window [OF sm d]
  note v = Date_valid [OF d]
  have b: "beginningOfMonth t = timeDate y m 1 0 0 0 0 (Location t)"
    by (simp add: beginningOfMonth_def Year_def Month_def d)
  have w: "dateToDays y m 1 * 86400 - zone t \<le> dateToDays y m 1 * 86400 + 0 - zone t"
    "dateToDays y m 1 * 86400 + 0 - zone t \<le> dateToDays y (m + 1) 1 * 86400 - zone t + 86400"
    using daysIn_pos [OF v(1,2), of y] by (simp_all add: mw(2))
  note tl = timeDate_local [OF mw(1,5) _ _ _ w, of 0 0 0 0]
  show "Location (beginningOfMonth t) = Location t"
    and "unixSec (beginningOfMonth t) = dateToDays y m 1 * 86400 - zone t"
    and "zone (beginningOfMonth t) = zone t"
    and l: "localDay (beginningOfMonth t) = dateToDays y m 1"
    and "nanoOfDay (beginningOfMonth t) = 0"
    unfolding b using tl by simp_all
  have "validDate y m 1"
    using v(1,2) daysIn_pos [of m y] by (simp add: validDate_def)
  then show "Date (beginningOfMonth t) = (y, m, 1)"
    unfolding Date_def l by (rule daysToDate_dateToDays)
qed

lemma endOfMonth_local:
  assumes sm: "steadyMonth t" and d: "Date t = (y, m, dd)"
  shows "Location (endOfMonth t) = Location t"
    and "unixSec (endOfMonth t) = dateToDays y (m + 1) 1 * 86400 - 1 - zone t"
    and "zone (endOfMonth t) = zone t"
    and "localDay (endOfMonth t) = dateToDays y m (daysIn m y)"
    and "nanoOfDay (endOfMonth t) = 86399000000000"
proof -
  note mw = month_window [OF sm d]
  note v = Date_valid [OF d]
  note b = beginningOfMonth_local [OF sm d]
  note dp = daysIn_pos [OF v(1,2), of y]
  define nextMonth where "nextMonth = AddDate (beginningOfMonth t) 0 1 0"
  define endOfThisMonth where "endOfThisMonth = AddDate nextMonth 0 0 (- 1)"
  have n: "nextMonth = timeDate y (m + 1) 1 0 0 0 0 (Location t)"
    by (simp add: nextMonth_def AddDate_def b(6) midnight_clock [OF b(5)] b(1))
  have wn: "dateToDays y m 1 * 86400 - zone t \<le> dateToDays y (m + 1) 1 * 86400 + 0 - zone t"
    "dateToDays y (m + 1) 1 * 86400 + 0 - zone t
      \<le> dateToDays y (m + 1) 1 * 86400 - zone t + 86400"
    using dp by (simp_all add: mw(2))
  note nl = timeDate_local [OF mw(1,5) _ _ _ wn, of 0 0 0 0, folded n]
  have nl': "Location nextMonth = Location t"
    "unixSec nextMonth = dateToDays y (m + 1) 1 * 86400 - zone t"
    "localDay nextMonth = dateToDays y (m + 1) 1"
    using nl by simp_all
  have k: "dateToDays y m 1 * 86400 - zone t \<le> unixSec nextMonth"
    "unixSec nextMonth \<le> dateToDays y (m + 1) 1 * 86400 - zone t + 86400"
    "dateToDays y m 1 * 86400 - zone t \<le> unixSec nextMonth + (- 1) * 86400"
    "unixSec nextMonth + (- 1) * 86400 \<le> dateToDays y (m + 1) 1 * 86400 - zone t + 86400"
    using dp by (simp_all add: nl'(2) mw(2))
  note el = AddDate_window [OF mw(1) nl'(1) k, folded endOfThisMonth_def]
  have l: "localDay endOfThisMonth = dateToDays y m (daysIn m y)"
    using el(5) dateToDays_day [of y m 1 "daysIn m y - 1"] by (simp add: nl'(3) mw(2))
  obtain ye me de where de: "Date endOfThisMonth = (ye, me, de)" by (metis prod_cases3)
  have e: "endOfMonth t = timeDate ye me de 23 59 59 0 (Location t)"
    by (simp add: endOfMonth_def Let_def nextMonth_def [symmetric] endOfThisMonth_def [symmetric]
        Year_def Month_def Day_def de Location_def)
  have dd: "dateToDays ye me de = dateToDays y (m + 1) 1 - 1"
    using dateToDays_Date(1) [OF de] el(5) by (simp add: nl'(3))
  have we: "dateToDays y m 1 * 86400 - zone t \<le> dateToDays ye me de * 86400 + 86399 - zone t"
    "dateToDays ye me de * 86400 + 86399 - zone t
      \<le> dateToDays y (m + 1) 1 * 86400 - zone t + 86400"
    using dp by (simp_all add: dd mw(2))
  note tl = timeDate_local [OF mw(1,5) _ _ _ we, of 23 59 59 0, folded e]
  show "Location (endOfMonth t) = Location t"
    and "unixSec (endOfMonth t) = dateToDays y (m + 1) 1 * 86400 - 1 - zone t"
    and "zone (endOfMonth t) = zone t"
    and "nanoOfDay (endOfMonth t) = 86399000000000"
    using tl by (simp_all add: dd)
  show "localDay (endOfMonth t) = dateToDays y m (daysIn m y)"
    using tl(4) dateToDays_Date(1) [OF de] by (simp add: l)
qed







section \<open>The report\<close>

lemma not_Before_local:
  assumes "zone u = zone t" "localDay t \<le> localDay u" "nanoOfDay t = 0"
  shows "\<not> Before u t"
proof -
  have "86400000000000 * localDay t \<le> 86400000000000 * localDay u" using assms(2) by simp
  then have "localNano t \<le> localNano u"
    unfolding localNano_split [of t] localNano_split [of u]
    using assms(3) nanoOfDay_bounds(1) [of u] by simp
  then show ?thesis using assms(1) by (simp add: Before_def localNano_def)
qed

text \<open>
  Every time in UTC or in a zone of fixed offset has a steady month.
\<close>

lemma steadyMonth_fixed: "transitions (Location t) = [] \<Longrightarrow> steadyMonth t"
  by (simp add: steadyMonth_def offsetSteady_fixed)

lemma month_ranges:
  assumes sm: "steadyMonth today" and d: "Date today = (y, m, dd)"
  shows "calcBusinessDaysInRange (beginningOfMonth today) today holidays =
      Some (Inr (int (length (filter (businessDate holidays)
        [dateToDays y m 1 .. localDay today]))))"
    and "calcBusinessDaysInRange (beginningOfMonth today) (endOfMonth today) holidays =
      Some (Inr (int (length (filter (businessDate holidays)
        [dateToDays y m 1 .. dateToDays y m (daysIn m y)]))))"
    and "localDay today \<le> dateToDays y m (daysIn m y)"
proof -
  note mw = month_window [OF sm d]
  note b = beginningOfMonth_local [OF sm d]
  note e = endOfMonth_local [OF sm d]
  note v = Date_valid [OF d]
  have t: "localDay today = dateToDays y m dd" by (simp add: dateToDays_Date(1) [OF d])
  have dd: "dateToDays y m dd = dateToDays y m 1 + (dd - 1)"
    "dateToDays y m (daysIn m y) = dateToDays y m 1 + (daysIn m y - 1)"
    using dateToDays_day [of y m 1 "dd - 1"] dateToDays_day [of y m 1 "daysIn m y - 1"]
    by simp_all
  show "localDay today \<le> dateToDays y m (daysIn m y)" using v(4) by (simp add: t dd)
  have 1: "\<not> Before today (beginningOfMonth today)"
    using v(3) by (intro not_Before_local) (simp_all add: b t dd)
  have 2: "\<not> Before (endOfMonth today) (beginningOfMonth today)"
    using v(3,4) by (intro not_Before_local) (simp_all add: b e dd)
  have s1: "offsetSteady (Location (beginningOfMonth today)) (unixSec (beginningOfMonth today))
      (unixSec today + 86400)"
    unfolding b(1,2) by (rule offsetSteady_shrink [OF mw(1,4)])
  have s2: "offsetSteady (Location (beginningOfMonth today)) (unixSec (beginningOfMonth today))
      (unixSec (endOfMonth today) + 86400)"
    unfolding b(1,2) e(2) by (rule offsetSteady_shrink [OF mw(1)]) simp
  show "calcBusinessDaysInRange (beginningOfMonth today) today holidays =
      Some (Inr (int (length (filter (businessDate holidays)
        [dateToDays y m 1 .. localDay today]))))"
    using calc_aligned [OF 1 _ _ s1, of holidays] nanoOfDay_bounds(1) [of today]
    by (simp add: b)
  show "calcBusinessDaysInRange (beginningOfMonth today) (endOfMonth today) holidays =
      Some (Inr (int (length (filter (businessDate holidays)
        [dateToDays y m 1 .. dateToDays y m (daysIn m y)]))))"
    using calc_aligned [OF 2 _ _ s2, of holidays] by (simp add: b e)
qed

lemma month_counts:
  assumes "steadyMonth today"
  shows "\<exists>passed tot.
     calcBusinessDaysInRange (beginningOfMonth today) today holidays = Some (Inr passed) \<and>
     calcBusinessDaysInRange (beginningOfMonth today) (endOfMonth today) holidays
       = Some (Inr tot) \<and>
     0 \<le> passed \<and> passed \<le> tot"
proof -
  obtain y m dd where d: "Date today = (y, m, dd)" by (metis prod_cases3)
  note r = month_ranges [OF assms d]
  show ?thesis unfolding r(1,2) using filter_upto_mono [OF r(3)] by simp
qed

lemma report_lines:
  assumes "calcBusinessDaysInRange (beginningOfMonth today) today holidays = Some (Inr passed)"
    and "calcBusinessDaysInRange (beginningOfMonth today) (endOfMonth today) holidays
      = Some (Inr tot)"
  shows "report rnd today holidays =
     Some (Inr [Printf_d passed, Printf_d (tot - passed), Printf_d ((tot - passed) * 8),
          Printf_1f (f64_mul rnd (f64_div rnd (f64_of_int passed) (f64_of_int tot))
            (Finite 100))])"
  by (simp add: report_def Let_def assms)




text \<open>
  C8. When the holidays load, \<^verbatim>\<open>main\<close> prints four lines from the two counts of
  the range counter, the business days passed from the start of the month to today
  and the total from the start to the end of the month: the days passed; the remaining
  business days, the total minus the days passed; the remaining hours, that
  difference times 8; and, with one decimal place (\<^verbatim>\<open>%.1f\<close>), the \<^verbatim>\<open>float64\<close>
  quotient of days passed by total days, times 100. Both range calls return counts
  for every today whose location has a steady offset over the month of today; every
  time in UTC or in a zone of fixed offset is one.
\<close>

theorem main_report:
  assumes "loadHolidays unmarshal holidaysYAML = Inr holidays"
  shows "(\<forall>passed tot.
      calcBusinessDaysInRange (beginningOfMonth today) today holidays = Some (Inr passed) \<and>
      calcBusinessDaysInRange (beginningOfMonth today) (endOfMonth today) holidays
        = Some (Inr tot) \<longrightarrow>
      main unmarshal holidaysYAML rnd today =
        Some (Inr [Printf_d passed,
             Printf_d (tot - passed),
             Printf_d ((tot - passed) * 8),
             Printf_1f (f64_mul rnd (f64_div rnd (f64_of_int passed) (f64_of_int tot))
               (Finite 100))])) \<and>
    (steadyMonth today \<longrightarrow>
      (\<exists>passed tot.
        calcBusinessDaysInRange (beginningOfMonth today) today holidays = Some (Inr passed) \<and>
        calcBusinessDaysInRange (beginningOfMonth today) (endOfMonth today) holidays
          = Some (Inr tot) \<and>
        main unmarshal holidaysYAML rnd today =
          Some (Inr [Printf_d passed,
               Printf_d (tot - passed),
               Printf_d ((tot - passed) * 8),
               Printf_1f (f64_mul rnd (f64_div rnd (f64_of_int passed) (f64_of_int tot))
                 (Finite 100))])))"
proof -
  have m: "main unmarshal holidaysYAML rnd today = report rnd today holidays"
    by (simp add: main_def assms)
  have 1: "main unmarshal holidaysYAML rnd today =
        Some (Inr [Printf_d passed,
             Printf_d (tot - passed),
             Printf_d ((tot - passed) * 8),
             Printf_1f (f64_mul rnd (f64_div rnd (f64_of_int passed) (f64_of_int tot))
               (Finite 100))])"
    if "calcBusinessDaysInRange (beginningOfMonth today) today holidays = Some (Inr passed)"
      "calcBusinessDaysInRange (beginningOfMonth today) (endOfMonth today) holidays
        = Some (Inr tot)" for passed tot
    unfolding m by (rule report_lines [OF that])
  show ?thesis
  proof (intro conjI allI impI)
    fix passed tot
    assume "calcBusinessDaysInRange (beginningOfMonth today) today holidays = Some (Inr passed) \<and>
      calcBusinessDaysInRange (beginningOfMonth today) (endOfMonth today) holidays
        = Some (Inr tot)"
    then show "main unmarshal holidaysYAML rnd today =
        Some (Inr [Printf_d passed,
             Printf_d (tot - passed),
             Printf_d ((tot - passed) * 8),
             Printf_1f (f64_mul rnd (f64_div rnd (f64_of_int passed) (f64_of_int tot))
               (Finite 100))])"
      using 1 by blast
  next
    assume "steadyMonth today"
    from month_counts [OF this, of holidays] obtain passed tot where
      c: "calcBusinessDaysInRange (beginningOfMonth today) today holidays = Some (Inr passed)"
        "calcBusinessDaysInRange (beginningOfMonth today) (endOfMonth today) holidays
          = Some (Inr tot)"
      by auto
    from c 1 [OF c] show "\<exists>passed tot.
        calcBusinessDaysInRange (beginningOfMonth today) today holidays = Some (Inr passed) \<and>
        calcBusinessDaysInRange (beginningOfMonth today) (endOfMonth today) holidays
          = Some (Inr tot) \<and>
        main unmarshal holidaysYAML rnd today =
          Some (Inr [Printf_d passed,
               Printf_d (tot - passed),
               Printf_d ((tot - passed) * 8),
               Printf_1f (f64_mul rnd (f64_div rnd (f64_of_int passed) (f64_of_int tot))
                 (Finite 100))])"
      by blast
  qed
qed

text \<open>
  Wednesday 2025-01-15 10:30 in UTC+9, holidays 2025-01-01 and 2025-01-13: day 9 of 21,
  12 days and 96 hours left, 300/7 percent (with exact arithmetic for \<open>rnd\<close>).
\<close>

theorem main_report_witness:
  "main (\<lambda>_. Some [''2025-01-01'', ''2025-01-13'']) ''holidays'' (\<lambda>x. x)
     (timeDate 2025 1 15 10 30 0 0 (FixedZone 32400))
   = Some (Inr [Printf_d 9, Printf_d 12, Printf_d 96, Printf_1f (Finite (300 / 7))])"
proof -
  let ?u = "\<lambda>_ :: string. Some [''2025-01-01'', ''2025-01-13'']"
  let ?t = "timeDate 2025 1 15 10 30 0 0 (FixedZone 32400)"
  let ?hs = "[timeDate 2025 1 1 0 0 0 0 UTC, timeDate 2025 1 13 0 0 0 0 UTC]"
  have l: "loadHolidays ?u ''holidays'' = Inr ?hs" by code_simp
  have s: "steadyMonth ?t" by code_simp
  have p: "calcBusinessDaysInRange (beginningOfMonth ?t) ?t ?hs = Some (Inr 9)" by code_simp
  have q: "calcBusinessDaysInRange (beginningOfMonth ?t) (endOfMonth ?t) ?hs = Some (Inr 21)"
    by code_simp
  from main_report [OF l, of ?t "\<lambda>x. x"] s p q show ?thesis
    by (simp add: f64_of_int_def)
qed

text \<open>
  C2, as amended. The division is not guarded. When the total of business days of
  the month is zero, \<^verbatim>\<open>main\<close> still divides the days passed by it: the
  percentage line gets NaN when no day has passed and positive infinity otherwise,
  after the days passed, the days left (zero minus the days passed) and the hours
  left (eight times that). It reports no error and it does not print a percentage
  of 0.
\<close>

theorem main_zero_total:
  assumes "loadHolidays unmarshal holidaysYAML = Inr holidays"
    and "calcBusinessDaysInRange (beginningOfMonth today) today holidays = Some (Inr passed)"
    and "calcBusinessDaysInRange (beginningOfMonth today) (endOfMonth today) holidays
      = Some (Inr 0)"
  shows "main unmarshal holidaysYAML rnd today =
    Some (Inr [Printf_d passed, Printf_d (0 - passed), Printf_d ((0 - passed) * 8),
               Printf_1f (if passed = 0 then NaN else PosInf)])"
proof -
  have m: "main unmarshal holidaysYAML rnd today = report rnd today holidays"
    by (simp add: main_def assms(1))
  have "\<not> Before today (beginningOfMonth today)"
    using assms(2) by (auto simp: calcBusinessDaysInRange_def split: if_splits)
  from calc_result [OF this assms(2)] have "0 \<le> passed" by simp
  then show ?thesis
    unfolding m report_lines [OF assms(2,3)] by (simp add: f64_of_int_def)
qed

text \<open>
  2000-10-31 12:00 in \<^verbatim>\<open>America/Asuncion\<close> with the weekdays from October 2 to 27
  as holidays: \<^verbatim>\<open>endOfMonth\<close> is on Sunday October 29, the total is 0 and one day,
  Monday October 30, has passed. And 2026-02-10 12:00 in UTC+9, with every weekday of
  February 2026 a holiday: no day has passed.
\<close>

theorem main_zero_total_witness:
  "main (\<lambda>_. Some weekdaysOfOctober2000) ''holidays'' (\<lambda>x. x)
     (timeDate 2000 10 31 12 0 0 0 asuncion)
   = Some (Inr [Printf_d 1, Printf_d (- 1), Printf_d (- 8), Printf_1f PosInf]) \<and>
   main (\<lambda>_. Some weekdaysOfFebruary2026) ''holidays'' (\<lambda>x. x)
     (timeDate 2026 2 10 12 0 0 0 (FixedZone 32400))
   = Some (Inr [Printf_d 0, Printf_d 0, Printf_d 0, Printf_1f NaN])"
proof -
  let ?a = "timeDate 2000 10 31 12 0 0 0 asuncion"
  let ?t = "timeDate 2026 2 10 12 0 0 0 (FixedZone 32400)"
  let ?ha = "map (the \<circ> Parse) weekdaysOfOctober2000"
  let ?ht = "map (the \<circ> Parse) weekdaysOfFebruary2026"
  have la: "loadHolidays (\<lambda>_. Some weekdaysOfOctober2000) ''holidays'' = Inr ?ha"
    by code_simp
  have pa: "calcBusinessDaysInRange (beginningOfMonth ?a) ?a ?ha = Some (Inr 1)"
    by code_simp
  have za: "calcBusinessDaysInRange (beginningOfMonth ?a) (endOfMonth ?a) ?ha = Some (Inr 0)"
    by code_simp
  have lt: "loadHolidays (\<lambda>_. Some weekdaysOfFebruary2026) ''holidays'' = Inr ?ht"
    by code_simp
  have pt: "calcBusinessDaysInRange (beginningOfMonth ?t) ?t ?ht = Some (Inr 0)"
    by code_simp
  have zt: "calcBusinessDaysInRange (beginningOfMonth ?t) (endOfMonth ?t) ?ht = Some (Inr 0)"
    by code_simp
  from main_zero_total [OF la pa za, of "\<lambda>x. x"] main_zero_total [OF lt pt zt, of "\<lambda>x. x"]
  show ?thesis by simp
qed

text \<open>
  The second input evaluated directly: the holidays load, the month has no business
  day, and the program neither fails nor prints 0 percent; the last line holds NaN.
\<close>

theorem main_zero_total_counterexample:
  "calcBusinessDaysInRange
     (beginningOfMonth (timeDate 2026 2 10 12 0 0 0 (FixedZone 32400)))
     (endOfMonth (timeDate 2026 2 10 12 0 0 0 (FixedZone 32400)))
     (map (the \<circ> Parse) weekdaysOfFebruary2026) = Some (Inr 0) \<and>
   loadHolidays (\<lambda>_. Some weekdaysOfFebruary2026) ''holidays''
     = Inr (map (the \<circ> Parse) weekdaysOfFebruary2026) \<and>
   main (\<lambda>_. Some weekdaysOfFebruary2026) ''holidays'' (\<lambda>x. x)
     (timeDate 2026 2 10 12 0 0 0 (FixedZone 32400))
   = Some (Inr [Printf_d 0, Printf_d 0, Printf_d 0, Printf_1f NaN])"
  by code_simp


section \<open>The holiday loader\<close>

lemma Parse_dateFields:
  "Parse s =
     (case dateFields s of
        None \<Rightarrow> None
      | Some (year, month, day) \<Rightarrow>
          if validDate year month day then Some (timeDate year month day 0 0 0 0 UTC) else None)"
  by (cases s rule: dateFields.cases) (auto simp: Parse_def validDate_def)

lemma Parse_None_iff: "Parse s = None \<longleftrightarrow> \<not> matchesLayout s"
  by (simp add: Parse_dateFields matchesLayout_def split: option.splits)

lemma Parse_Some:
  assumes "matchesLayout s"
  shows "\<exists>t. Parse s = Some t \<and> Some (Date t) = dateFields s \<and>
    Location t = UTC \<and> zone t = 0 \<and> nanoOfDay t = 0"
proof -
  from assms obtain y m d where f: "dateFields s = Some (y, m, d)" and v: "validDate y m d"
    by (auto simp: matchesLayout_def split: option.splits)
  let ?a = "dateToDays y m d * 86400"
  have st: "offsetSteady UTC ?a ?a" by (simp add: offsetSteady_fixed UTC_def)
  have z: "fst (lookup UTC ?a) = 0" by (simp add: lookup_def UTC_def)
  note tl = timeDate_local [OF st z, of 0 0 0 0 y m d 0, simplified]
  have "Date (timeDate y m d 0 0 0 0 UTC) = (y, m, d)"
    by (simp add: Date_def tl daysToDate_dateToDays [OF v])
  then show ?thesis by (simp add: Parse_dateFields f v tl)
qed

lemma loadLoop_fail:
  assumes "s \<in> set strs" "\<not> matchesLayout s"
  shows "\<exists>s\<in>set strs. \<not> matchesLayout s \<and> loadLoop strs acc = Inl (HolidayParseError s)"
  using assms
proof (induction strs arbitrary: acc)
  case Nil
  then show ?case by simp
next
  case (Cons a strs)
  show ?case
  proof (cases "Parse a")
    case None
    then have "\<not> matchesLayout a" by (simp add: Parse_None_iff)
    with None show ?thesis by (intro bexI [of _ a]) simp_all
  next
    case (Some t)
    with Cons.prems have "s \<in> set strs" by (auto simp: Parse_None_iff [symmetric])
    from Cons.IH [OF this Cons.prems(2), of "acc @ [t]"] Some show ?thesis by auto
  qed
qed

lemma loadLoop_ok:
  assumes "\<forall>s\<in>set strs. matchesLayout s"
  shows "\<exists>hs. loadLoop strs acc = Inr (acc @ hs) \<and>
    map (\<lambda>h. Some (Date h)) hs = map dateFields strs \<and>
    (\<forall>h\<in>set hs. Location h = UTC \<and> zone h = 0 \<and> nanoOfDay h = 0)"
  using assms
proof (induction strs arbitrary: acc)
  case Nil
  then show ?case by simp
next
  case (Cons a strs)
  from Cons.prems Parse_Some [of a] obtain t where
    t: "Parse a = Some t" "Some (Date t) = dateFields a"
      "Location t = UTC" "zone t = 0" "nanoOfDay t = 0"
    by auto
  from Cons.prems Cons.IH [of "acc @ [t]"] obtain hs where
    hs: "loadLoop strs (acc @ [t]) = Inr (acc @ [t] @ hs)"
      "map (\<lambda>h. Some (Date h)) hs = map dateFields strs"
      "\<forall>h\<in>set hs. Location h = UTC \<and> zone h = 0 \<and> nanoOfDay h = 0"
    by auto
  show ?case
    by (rule exI [of _ "t # hs"]) (use t hs in simp)
qed

text \<open>
  C6. \<^verbatim>\<open>loadHolidays\<close> returns an error when the embedded file is empty, when
  \<^verbatim>\<open>yaml.Unmarshal\<close> rejects the document, and when some entry is not a date in the
  format \<^verbatim>\<open>YYYY-MM-DD\<close> (the error then names such an entry); \<^verbatim>\<open>2025-13-01\<close> is
  such an entry. Otherwise it returns, without error, the list of the entries' dates
  in their order, each at midnight UTC.
\<close>

theorem loadHolidays_result:
  "(holidaysYAML = [] \<longrightarrow> loadHolidays unmarshal holidaysYAML = Inl NotEmbedded) \<and>
   (holidaysYAML \<noteq> [] \<and> unmarshal holidaysYAML = None \<longrightarrow>
      loadHolidays unmarshal holidaysYAML = Inl YamlError) \<and>
   (holidaysYAML \<noteq> [] \<and> unmarshal holidaysYAML = Some strs \<and> (\<exists>s\<in>set strs. \<not> matchesLayout s) \<longrightarrow>
      (\<exists>s\<in>set strs. \<not> matchesLayout s \<and>
         loadHolidays unmarshal holidaysYAML = Inl (HolidayParseError s))) \<and>
   (holidaysYAML \<noteq> [] \<and> unmarshal holidaysYAML = Some strs \<and> (\<forall>s\<in>set strs. matchesLayout s) \<longrightarrow>
      (\<exists>hs. loadHolidays unmarshal holidaysYAML = Inr hs \<and>
         map (\<lambda>h. Some (Date h)) hs = map dateFields strs \<and>
         (\<forall>h\<in>set hs. Location h = UTC \<and> zone h = 0 \<and> nanoOfDay h = 0))) \<and>
   \<not> matchesLayout ''2025-13-01''"
proof -
  have "\<not> matchesLayout ''2025-13-01''"
    by (simp add: matchesLayout_def isDigit_def digitVal_def validDate_def)
  moreover have "\<exists>s\<in>set strs. \<not> matchesLayout s \<and>
      loadHolidays unmarshal holidaysYAML = Inl (HolidayParseError s)"
    if "holidaysYAML \<noteq> []" "unmarshal holidaysYAML = Some strs" "\<exists>s\<in>set strs. \<not> matchesLayout s"
    using that loadLoop_fail [of _ strs "[]"] by (auto simp: loadHolidays_def)
  moreover have "\<exists>hs. loadHolidays unmarshal holidaysYAML = Inr hs \<and>
         map (\<lambda>h. Some (Date h)) hs = map dateFields strs \<and>
         (\<forall>h\<in>set hs. Location h = UTC \<and> zone h = 0 \<and> nanoOfDay h = 0)"
    if "holidaysYAML \<noteq> []" "unmarshal holidaysYAML = Some strs" "\<forall>s\<in>set strs. matchesLayout s"
    using that loadLoop_ok [of strs "[]"] by (auto simp: loadHolidays_def)
  ultimately show ?thesis by (simp add: loadHolidays_def)
qed

text \<open>
  An empty file; a document that does not parse; a list with \<^verbatim>\<open>2025-13-01\<close>; and a
  list of two good dates, one of them a leap day.
\<close>

theorem loadHolidays_result_witness:
  "loadHolidays (\<lambda>_. Some [''2025-01-01'']) [] = Inl NotEmbedded \<and>
   loadHolidays (\<lambda>_. None) ''holidays: ['' = Inl YamlError \<and>
   (\<exists>s\<in>set [''2025-01-01'', ''2025-13-01'']. \<not> matchesLayout s \<and>
      loadHolidays (\<lambda>_. Some [''2025-01-01'', ''2025-13-01'']) ''holidays''
        = Inl (HolidayParseError s)) \<and>
   (\<exists>hs. loadHolidays (\<lambda>_. Some [''2025-01-01'', ''2024-02-29'']) ''holidays'' = Inr hs \<and>
      map (\<lambda>h. Some (Date h)) hs = [Some (2025, 1, 1), Some (2024, 2, 29)])"
proof -
  have a: "\<exists>s\<in>set [''2025-01-01'', ''2025-13-01'']. \<not> matchesLayout s" by code_simp
  have b: "\<forall>s\<in>set [''2025-01-01'', ''2024-02-29'']. matchesLayout s" by code_simp
  have c: "map dateFields [''2025-01-01'', ''2024-02-29''] = [Some (2025, 1, 1), Some (2024, 2, 29)]"
    by code_simp
  from a b
    loadHolidays_result [of "[]" "\<lambda>_. Some [''2025-01-01'']" "[]"]
    loadHolidays_result [of "''holidays: [''" "\<lambda>_. None" "[]"]
    loadHolidays_result [of "''holidays''" "\<lambda>_. Some [''2025-01-01'', ''2025-13-01'']"
      "[''2025-01-01'', ''2025-13-01'']"]
    loadHolidays_result [of "''holidays''" "\<lambda>_. Some [''2025-01-01'', ''2024-02-29'']"
      "[''2025-01-01'', ''2024-02-29'']"]
  show ?thesis unfolding c [symmetric] by auto
qed

end
